theory Spec2Isabelle
  imports Main "HOL-Library.Sublist"
begin

section \<open>The collaborators: raw socket and scheduler\<close>

text \<open>
  The module \<^verbatim>\<open>anyio/_networking.py\<close> adapts a non-blocking raw socket to a
  cooperative scheduler. Neither the raw socket (\<^verbatim>\<open>socket.socket\<close>, \<^verbatim>\<open>ssl.SSLSocket\<close>)
  nor the scheduler hooks (the abstract methods \<^verbatim>\<open>_check_cancelled\<close>,
  \<^verbatim>\<open>_wait_readable\<close>, \<^verbatim>\<open>_wait_writable\<close>, \<^verbatim>\<open>_notify_close\<close>, \<^verbatim>\<open>_run_in_thread\<close>) are
  part of the module. They are modelled by a record \<open>world\<close> that holds what the
  successive calls to them will find, and a chronological log of the calls made.
  Every method of the module is a function that takes the world and returns its
  outcome (\<open>Inl\<close> an exception, \<open>Inr\<close> a value) together with the new world.
\<close>

type_synonym bytes = string

datatype exc =
    Cancelled
  | BlockingIOError
  | SSLWantReadError
  | SSLWantWriteError
  | ValueError
  | KeyError
  | IncompleteRead bytes
  | DelimiterNotFound bytes
  | OSError int string
  | OtherError nat

text \<open>
  A raw socket object is either a plain socket on an OS handle or the TLS socket
  that \<^verbatim>\<open>SSLContext.wrap_socket\<close> built around another socket object.
\<close>

datatype rawsock = Plain nat | TLS rawsock

text \<open>The OS descriptor a socket object was made on, and whether the object is a TLS socket.\<close>

fun fileno :: "rawsock \<Rightarrow> nat" where
  "fileno (Plain n) = n"
| "fileno (TLS h) = fileno h"

fun is_tls :: "rawsock \<Rightarrow> bool" where
  "is_tls (Plain n) = False"
| "is_tls (TLS h) = True"

datatype rawcall =
    RAccept | RSetBlocking | RBind | RConnect | RGetSockOpt
  | RRecv | RRecvInto | RRecvFrom | RRecvFromInto
  | RSend | RSendTo | RWrapSocket nat bool | RDoHandshake | RClose

datatype event =
    CheckCancelled
  | WaitReadable
  | WaitWritable
  | NotifyClose
  | RunInThread
  | Raw rawsock rawcall

text \<open>
  What a receiving call on the raw socket finds next: some bytes that have arrived
  (a call never sees past the end of the chunk at the head of the queue, which is
  how fragmented delivery shows), or an exception. An empty queue is end of stream.
\<close>

datatype rxitem = Chunk bytes | RxRaise exc

text \<open>
  What a sending call on the raw socket finds next: room for at most so many
  bytes (a short write when the payload is longer), or an exception.
\<close>

datatype txitem = Room nat | TxRaise exc

record world =
  cancelled :: bool
  waits :: "exc option list"
  rx :: "rxitem list"
  tx :: "txitem list"
  conns :: "(exc + nat \<times> string) list"
  dgrams :: "(exc + bytes \<times> string) list"
  calls :: "exc option list"
  so_error :: int
  wire :: bytes
  detached :: "rawsock list"
  released :: "nat list"
  trace :: "event list"

definition world0 :: world where
  "world0 = \<lparr> cancelled = False, waits = [], rx = [], tx = [], conns = [], dgrams = [],
              calls = [], so_error = 0, wire = [], detached = [], released = [],
              trace = [] \<rparr>"

definition log :: "event \<Rightarrow> world \<Rightarrow> world" where
  "log ev w = w\<lparr>trace := trace w @ [ev]\<rparr>"

subsection \<open>Scheduler hooks\<close>

text \<open>
  \<^verbatim>\<open>_check_cancelled\<close> raises \<open>Cancelled\<close> when the task has been cancelled.
  The two readiness waits are suspension points: the scheduler may raise there
  (field \<open>waits\<close>, one entry per wait; none left means the wait returns).
  \<^verbatim>\<open>_notify_close\<close> is modelled as returning normally.
\<close>

definition check_cancelled :: "world \<Rightarrow> (exc + unit) \<times> world" where
  "check_cancelled w =
     (if cancelled w then (Inl Cancelled, log CheckCancelled w)
      else (Inr (), log CheckCancelled w))"

definition wait_hook :: "event \<Rightarrow> world \<Rightarrow> (exc + unit) \<times> world" where
  "wait_hook ev w =
     (case waits w of
        [] \<Rightarrow> (Inr (), log ev w)
      | None # r \<Rightarrow> (Inr (), log ev (w\<lparr>waits := r\<rparr>))
      | Some e # r \<Rightarrow> (Inl e, log ev (w\<lparr>waits := r\<rparr>)))"

definition wait_readable :: "world \<Rightarrow> (exc + unit) \<times> world" where
  "wait_readable = wait_hook WaitReadable"

definition wait_writable :: "world \<Rightarrow> (exc + unit) \<times> world" where
  "wait_writable = wait_hook WaitWritable"

definition notify_close :: "world \<Rightarrow> world" where
  "notify_close w = log NotifyClose w"

subsection \<open>Raw socket calls\<close>

text \<open>
  \<^verbatim>\<open>socket.recv(size, flags)\<close>: a negative size (\<open>sz\<close>) raises \<open>ValueError\<close>, and so
  does a TLS socket when \<open>flags\<close> is not zero (\<^verbatim>\<open>ssl.SSLSocket.recv\<close> allows no
  flags); otherwise the call returns at most \<open>sz\<close> bytes of the chunk at the head of
  the queue, and removes them unless \<open>flags\<close> is \<^verbatim>\<open>MSG_PEEK\<close> (\<open>peek\<close>).
\<close>

definition rx_consume :: "nat \<Rightarrow> bytes \<Rightarrow> rxitem list \<Rightarrow> rxitem list" where
  "rx_consume n c r = (if drop n c = [] then r else Chunk (drop n c) # r)"

definition raw_recv :: "rawsock \<Rightarrow> int \<Rightarrow> bool \<Rightarrow> world \<Rightarrow> (exc + bytes) \<times> world" where
  "raw_recv h sz peek w =
     (let w0 = log (Raw h RRecv) w in
      if sz < 0 \<or> (peek \<and> is_tls h) then (Inl ValueError, w0)
      else (case rx w of
              [] \<Rightarrow> (Inr [], w0)
            | RxRaise e # r \<Rightarrow> (Inl e, w0\<lparr>rx := r\<rparr>)
            | Chunk c # r \<Rightarrow>
                (Inr (take (nat sz) c),
                 if peek then w0 else w0\<lparr>rx := rx_consume (nat sz) c r\<rparr>)))"

text \<open>
  \<^verbatim>\<open>socket.recv_into(view, nbytes, flags)\<close> where \<open>view\<close> is the part of the
  bytearray \<open>buf\<close> from position \<open>pos\<close> on: the bytes received overwrite the
  buffer from \<open>pos\<close>, and their number is returned. \<open>nbytes = 0\<close> means the size
  of the view; more than the view holds raises \<open>ValueError\<close>.
\<close>

definition raw_recv_into ::
  "rawsock \<Rightarrow> bytes \<Rightarrow> nat \<Rightarrow> int \<Rightarrow> world \<Rightarrow> (exc + nat \<times> bytes) \<times> world" where
  "raw_recv_into h buf pos nbytes w =
     (let w0 = log (Raw h RRecvInto) w;
          room = length buf - pos;
          n = (if nbytes = 0 then room else nat nbytes) in
      if nbytes < 0 \<or> room < n then (Inl ValueError, w0)
      else (case rx w of
              [] \<Rightarrow> (Inr (0, buf), w0)
            | RxRaise e # r \<Rightarrow> (Inl e, w0\<lparr>rx := r\<rparr>)
            | Chunk c # r \<Rightarrow>
                (Inr (length (take n c),
                      take pos buf @ take n c @ drop (pos + length (take n c)) buf),
                 w0\<lparr>rx := rx_consume n c r\<rparr>)))"


text \<open>
  \<^verbatim>\<open>socket.send(data, flags)\<close>: the socket takes as many bytes from the start of
  \<open>data\<close> as it has room for, and returns their number; the bytes taken are what
  the peer observes (\<open>wire\<close>). With nothing left in the queue the connection is
  gone and the call raises \<^verbatim>\<open>EPIPE\<close>. \<^verbatim>\<open>socket.sendto\<close> differs in the call logged.
\<close>

definition raw_send_call :: "rawcall \<Rightarrow> rawsock \<Rightarrow> bytes \<Rightarrow> world \<Rightarrow> (exc + nat) \<times> world" where
  "raw_send_call c h data w =
     (let w0 = log (Raw h c) w in
      case tx w of
        [] \<Rightarrow> (Inl (OSError 32 ''EPIPE''), w0)
      | TxRaise e # r \<Rightarrow> (Inl e, w0\<lparr>tx := r\<rparr>)
      | Room k # r \<Rightarrow> (Inr (length (take k data)), w0\<lparr>tx := r, wire := wire w @ take k data\<rparr>))"

definition raw_send :: "rawsock \<Rightarrow> bytes \<Rightarrow> world \<Rightarrow> (exc + nat) \<times> world" where
  "raw_send = raw_send_call RSend"

definition raw_sendto :: "rawsock \<Rightarrow> bytes \<Rightarrow> string \<times> int \<Rightarrow> world \<Rightarrow> (exc + nat) \<times> world" where
  "raw_sendto h data addr = raw_send_call RSendTo h data"

text \<open>
  \<^verbatim>\<open>socket.accept()\<close>: the next pending connection (its handle and the peer address),
  \<open>BlockingIOError\<close> when none is pending.
\<close>

definition raw_accept :: "rawsock \<Rightarrow> world \<Rightarrow> (exc + rawsock \<times> string) \<times> world" where
  "raw_accept h w =
     (let w0 = log (Raw h RAccept) w in
      case conns w of
        [] \<Rightarrow> (Inl BlockingIOError, w0)
      | Inl e # r \<Rightarrow> (Inl e, w0\<lparr>conns := r\<rparr>)
      | Inr (fd, peer) # r \<Rightarrow> (Inr (Plain fd, peer), w0\<lparr>conns := r\<rparr>))"

text \<open>
  \<^verbatim>\<open>socket.recvfrom(size, flags)\<close> returns the next datagram, cut to \<open>size\<close> bytes, and
  its sender; \<^verbatim>\<open>socket.recvfrom_into(buffer, size, flags)\<close> writes it to the start of
  the buffer and returns the number of bytes and the sender.
\<close>

definition raw_recvfrom :: "rawsock \<Rightarrow> int \<Rightarrow> world \<Rightarrow> (exc + bytes \<times> string) \<times> world" where
  "raw_recvfrom h sz w =
     (let w0 = log (Raw h RRecvFrom) w in
      if sz < 0 then (Inl ValueError, w0)
      else (case dgrams w of
              [] \<Rightarrow> (Inl BlockingIOError, w0)
            | Inl e # r \<Rightarrow> (Inl e, w0\<lparr>dgrams := r\<rparr>)
            | Inr (payload, sender) # r \<Rightarrow> (Inr (take (nat sz) payload, sender), w0\<lparr>dgrams := r\<rparr>)))"

definition raw_recvfrom_into ::
  "rawsock \<Rightarrow> bytes \<Rightarrow> int \<Rightarrow> world \<Rightarrow> (exc + (nat \<times> string) \<times> bytes) \<times> world" where
  "raw_recvfrom_into h buf sz w =
     (let w0 = log (Raw h RRecvFromInto) w;
          n = (if sz = 0 then length buf else nat sz) in
      if sz < 0 \<or> length buf < n then (Inl ValueError, w0)
      else (case dgrams w of
              [] \<Rightarrow> (Inl BlockingIOError, w0)
            | Inl e # r \<Rightarrow> (Inl e, w0\<lparr>dgrams := r\<rparr>)
            | Inr (payload, sender) # r \<Rightarrow>
                (Inr ((length (take n payload), sender),
                      take n payload @ drop (length (take n payload)) buf),
                 w0\<lparr>dgrams := r\<rparr>)))"

text \<open>
  The raw calls that return nothing of interest (\<^verbatim>\<open>bind\<close>, \<^verbatim>\<open>connect\<close>,
  \<^verbatim>\<open>do_handshake\<close>) succeed or raise as the field \<open>calls\<close> says, and so does
  \<^verbatim>\<open>SSLContext.wrap_socket\<close>, whose result is the \<open>TLS\<close> socket around its argument.
  \<^verbatim>\<open>setblocking\<close>, \<^verbatim>\<open>close\<close> and \<^verbatim>\<open>getsockopt\<close> always succeed.
\<close>

definition raw_call :: "rawsock \<Rightarrow> rawcall \<Rightarrow> world \<Rightarrow> (exc + unit) \<times> world" where
  "raw_call h c w =
     (let w0 = log (Raw h c) w in
      case calls w of
        [] \<Rightarrow> (Inr (), w0)
      | None # r \<Rightarrow> (Inr (), w0\<lparr>calls := r\<rparr>)
      | Some e # r \<Rightarrow> (Inl e, w0\<lparr>calls := r\<rparr>))"

definition raw_getsockopt :: "rawsock \<Rightarrow> world \<Rightarrow> int \<times> world" where
  "raw_getsockopt h w = (so_error w, log (Raw h RGetSockOpt) w)"

text \<open>
  A TLS socket is made on the descriptor of the socket it wraps and takes it over:
  \<^verbatim>\<open>wrap_socket\<close> calls \<^verbatim>\<open>detach()\<close> on its argument, and from then on the TLS socket
  alone can release the descriptor. When \<^verbatim>\<open>wrap_socket\<close> raises, its argument is as
  it was.
\<close>

definition raw_wrap_socket :: "rawsock \<Rightarrow> nat \<Rightarrow> bool \<Rightarrow> world \<Rightarrow> (exc + unit) \<times> world" where
  "raw_wrap_socket h context server_side w =
     (case raw_call h (RWrapSocket context server_side) w of
        (Inl e, w1) \<Rightarrow> (Inl e, w1)
      | (Inr _, w1) \<Rightarrow> (Inr (), w1\<lparr>detached := detached w1 @ [h]\<rparr>))"

text \<open>
  \<^verbatim>\<open>socket.close()\<close> releases the descriptor of the socket object, unless the object
  has been detached from it: closing a detached socket object releases nothing.
\<close>

definition raw_close :: "rawsock \<Rightarrow> world \<Rightarrow> world" where
  "raw_close h w =
     (let w0 = log (Raw h RClose) w in
      if h \<in> set (detached w) \<or> fileno h \<in> set (released w) then w0
      else w0\<lparr>released := released w @ [fileno h]\<rparr>)"

text \<open>\<^verbatim>\<open>_run_in_thread(func, *args)\<close> resumes the caller with the outcome of the call.\<close>

definition run_in_thread :: "(world \<Rightarrow> (exc + 'a) \<times> world) \<Rightarrow> world \<Rightarrow> (exc + 'a) \<times> world" where
  "run_in_thread func w = func (log RunInThread w)"

section \<open>BaseSocket\<close>

record basesocket =
  raw_socket :: rawsock

subsection \<open>recv and recv\_into\<close>

function recv :: "basesocket \<Rightarrow> int \<Rightarrow> bool \<Rightarrow> world \<Rightarrow> (exc + bytes) \<times> world" where
  "recv s sz peek w =
     (case check_cancelled w of
        (Inl e, w1) \<Rightarrow> (Inl e, w1)
      | (Inr _, w1) \<Rightarrow>
          (case raw_recv (raw_socket s) sz peek w1 of
             (Inr data, w2) \<Rightarrow> (Inr data, w2)
           | (Inl e, w2) \<Rightarrow>
               if e = BlockingIOError \<or> e = SSLWantReadError then
                 (case wait_readable w2 of
                    (Inl e', w3) \<Rightarrow> (Inl e', w3)
                  | (Inr _, w3) \<Rightarrow> recv s sz peek w3)
               else if e = SSLWantWriteError then
                 (case wait_writable w2 of
                    (Inl e', w3) \<Rightarrow> (Inl e', w3)
                  | (Inr _, w3) \<Rightarrow> recv s sz peek w3)
               else (Inl e, w2)))"
  by pat_completeness auto

lemma rx_log [simp]: "rx (log ev w) = rx w"
  by (simp add: log_def)

lemma rx_check_cancelled: "check_cancelled w = (r, w1) \<Longrightarrow> rx w1 = rx w"
  by (auto simp: check_cancelled_def split: if_splits)

lemma rx_wait_hook: "wait_hook ev w = (r, w1) \<Longrightarrow> rx w1 = rx w"
  by (auto simp: wait_hook_def split: list.splits option.splits)

lemma raw_recv_retry:
  "raw_recv h sz peek w = (Inl e, w1) \<Longrightarrow> e \<noteq> ValueError \<Longrightarrow> length (rx w1) < length (rx w)"
  by (auto simp: raw_recv_def Let_def split: if_splits list.splits rxitem.splits)

termination recv
proof (relation "measure (\<lambda>(s, sz, peek, w). length (rx w))", goal_cases)
  case 1
  show ?case by simp
next
  case (2 s sz peek w x1 w1 u x2 w2 e x3 w3 v)
  then have "rx w1 = rx w" "rx w3 = rx w2" "length (rx w2) < length (rx w1)"
    by (auto simp: wait_readable_def dest: rx_check_cancelled rx_wait_hook raw_recv_retry
        dest!: sym [of "(_, _)"])
  then show ?case by simp
next
  case (3 s sz peek w x1 w1 u x2 w2 e x3 w3 v)
  then have "rx w1 = rx w" "rx w3 = rx w2" "length (rx w2) < length (rx w1)"
    by (auto simp: wait_writable_def dest: rx_check_cancelled rx_wait_hook raw_recv_retry
        dest!: sym [of "(_, _)"])
  then show ?case by simp
qed

function recv_into ::
  "basesocket \<Rightarrow> bytes \<Rightarrow> nat \<Rightarrow> int \<Rightarrow> world \<Rightarrow> (exc + nat \<times> bytes) \<times> world" where
  "recv_into s buf pos nbytes w =
     (case check_cancelled w of
        (Inl e, w1) \<Rightarrow> (Inl e, w1)
      | (Inr _, w1) \<Rightarrow>
          (case raw_recv_into (raw_socket s) buf pos nbytes w1 of
             (Inr res, w2) \<Rightarrow> (Inr res, w2)
           | (Inl e, w2) \<Rightarrow>
               if e = BlockingIOError \<or> e = SSLWantReadError then
                 (case wait_readable w2 of
                    (Inl e', w3) \<Rightarrow> (Inl e', w3)
                  | (Inr _, w3) \<Rightarrow> recv_into s buf pos nbytes w3)
               else if e = SSLWantWriteError then
                 (case wait_writable w2 of
                    (Inl e', w3) \<Rightarrow> (Inl e', w3)
                  | (Inr _, w3) \<Rightarrow> recv_into s buf pos nbytes w3)
               else (Inl e, w2)))"
  by pat_completeness auto

lemma raw_recv_into_retry:
  "raw_recv_into h buf pos nbytes w = (Inl e, w1) \<Longrightarrow> e \<noteq> ValueError \<Longrightarrow>
   length (rx w1) < length (rx w)"
  by (auto simp: raw_recv_into_def Let_def split: if_splits list.splits rxitem.splits)

termination recv_into
proof (relation "measure (\<lambda>(s, buf, pos, nbytes, w). length (rx w))", goal_cases)
  case 1
  show ?case by simp
next
  case (2 s buf pos nbytes w x1 w1 u x2 w2 e x3 w3 v)
  then have "rx w1 = rx w" "rx w3 = rx w2" "length (rx w2) < length (rx w1)"
    by (auto simp: wait_readable_def dest: rx_check_cancelled rx_wait_hook raw_recv_into_retry
        dest!: sym [of "(_, _)"])
  then show ?case by simp
next
  case (3 s buf pos nbytes w x1 w1 u x2 w2 e x3 w3 v)
  then have "rx w1 = rx w" "rx w3 = rx w2" "length (rx w2) < length (rx w1)"
    by (auto simp: wait_writable_def dest: rx_check_cancelled rx_wait_hook raw_recv_into_retry
        dest!: sym [of "(_, _)"])
  then show ?case by simp
qed


subsection \<open>Construction, accept, bind, close, connect\<close>

text \<open>\<^verbatim>\<open>__init__\<close> stores the raw socket and makes it non-blocking.\<close>

definition init :: "rawsock \<Rightarrow> world \<Rightarrow> basesocket \<times> world" where
  "init raw w = (\<lparr> raw_socket = raw \<rparr>, log (Raw raw RSetBlocking) w)"

definition accept :: "basesocket \<Rightarrow> world \<Rightarrow> (exc + basesocket \<times> string) \<times> world" where
  "accept s w =
     (case check_cancelled w of
        (Inl e, w1) \<Rightarrow> (Inl e, w1)
      | (Inr _, w1) \<Rightarrow>
          (case (case raw_accept (raw_socket s) w1 of
                   (Inl e, w2) \<Rightarrow>
                     if e = BlockingIOError then
                       (case wait_readable w2 of
                          (Inl e', w3) \<Rightarrow> (Inl e', w3)
                        | (Inr _, w3) \<Rightarrow> raw_accept (raw_socket s) w3)
                     else (Inl e, w2)
                 | (Inr res, w2) \<Rightarrow> (Inr res, w2)) of
             (Inl e, w4) \<Rightarrow> (Inl e, w4)
           | (Inr (raw, address), w4) \<Rightarrow>
               (case init raw w4 of (s', w5) \<Rightarrow> (Inr (s', address), w5))))"

text \<open>
  An address is a 2-tuple or anything else (a path, a longer tuple). The first
  component of a 2-tuple is something \<^verbatim>\<open>ipaddress.ip_address\<close> accepts (\<open>IPLiteral\<close>)
  or something on which it raises \<open>ValueError\<close> (\<open>HostName\<close>).
\<close>

datatype host = IPLiteral string | HostName string

datatype address = HostPort host int | OtherAddress string

definition bind :: "basesocket \<Rightarrow> address \<Rightarrow> world \<Rightarrow> (exc + unit) \<times> world" where
  "bind s address w =
     (case check_cancelled w of
        (Inl e, w1) \<Rightarrow> (Inl e, w1)
      | (Inr _, w1) \<Rightarrow>
          (case address of
             HostPort (IPLiteral ip) port \<Rightarrow> raw_call (raw_socket s) RBind w1
           | _ \<Rightarrow> run_in_thread (raw_call (raw_socket s) RBind) w1))"

definition close :: "basesocket \<Rightarrow> world \<Rightarrow> world" where
  "close s w = raw_close (raw_socket s) (notify_close w)"

text \<open>\<open>errorcode\<close> is the table \<^verbatim>\<open>errno.errorcode\<close>; a code it lacks raises \<open>KeyError\<close>.\<close>

definition connect ::
  "(int \<Rightarrow> string option) \<Rightarrow> basesocket \<Rightarrow> address \<Rightarrow> world \<Rightarrow> (exc + unit) \<times> world" where
  "connect errorcode s address w =
     (case check_cancelled w of
        (Inl e, w1) \<Rightarrow> (Inl e, w1)
      | (Inr _, w1) \<Rightarrow>
          (case (case raw_call (raw_socket s) RConnect w1 of
                   (Inl e, w2) \<Rightarrow>
                     if e = BlockingIOError then wait_writable w2 else (Inl e, w2)
                 | (Inr _, w2) \<Rightarrow> (Inr (), w2)) of
             (Inl e, w3) \<Rightarrow> (Inl e, w3)
           | (Inr _, w3) \<Rightarrow>
               (case raw_getsockopt (raw_socket s) w3 of
                  (error, w4) \<Rightarrow>
                    if error \<noteq> 0 then
                      (case errorcode error of
                         None \<Rightarrow> (Inl KeyError, w4)
                       | Some name \<Rightarrow> (Inl (OSError error name), w4))
                    else (Inr (), w4))))"

subsection \<open>recvfrom and recvfrom\_into\<close>

definition recvfrom :: "basesocket \<Rightarrow> int \<Rightarrow> world \<Rightarrow> (exc + bytes \<times> string) \<times> world" where
  "recvfrom s sz w =
     (case check_cancelled w of
        (Inl e, w1) \<Rightarrow> (Inl e, w1)
      | (Inr _, w1) \<Rightarrow>
          (case raw_recvfrom (raw_socket s) sz w1 of
             (Inl e, w2) \<Rightarrow>
               if e = BlockingIOError then
                 (case wait_readable w2 of
                    (Inl e', w3) \<Rightarrow> (Inl e', w3)
                  | (Inr _, w3) \<Rightarrow> raw_recvfrom (raw_socket s) sz w3)
               else (Inl e, w2)
           | (Inr res, w2) \<Rightarrow> (Inr res, w2)))"

definition recvfrom_into ::
  "basesocket \<Rightarrow> bytes \<Rightarrow> int \<Rightarrow> world \<Rightarrow> (exc + (nat \<times> string) \<times> bytes) \<times> world" where
  "recvfrom_into s buf sz w =
     (case check_cancelled w of
        (Inl e, w1) \<Rightarrow> (Inl e, w1)
      | (Inr _, w1) \<Rightarrow>
          (case raw_recvfrom_into (raw_socket s) buf sz w1 of
             (Inl e, w2) \<Rightarrow>
               if e = BlockingIOError then
                 (case wait_readable w2 of
                    (Inl e', w3) \<Rightarrow> (Inl e', w3)
                  | (Inr _, w3) \<Rightarrow> raw_recvfrom_into (raw_socket s) buf sz w3)
               else (Inl e, w2)
           | (Inr res, w2) \<Rightarrow> (Inr res, w2)))"

subsection \<open>send, sendto, sendall\<close>

lemma tx_log [simp]: "tx (log ev w) = tx w"
  by (simp add: log_def)

lemma tx_check_cancelled: "check_cancelled w = (r, w1) \<Longrightarrow> tx w1 = tx w"
  by (auto simp: check_cancelled_def split: if_splits)

lemma tx_wait_hook: "wait_hook ev w = (r, w1) \<Longrightarrow> tx w1 = tx w"
  by (auto simp: wait_hook_def split: list.splits option.splits)

lemma raw_send_pops:
  "raw_send h data w = (r, w1) \<Longrightarrow> (\<forall>c s. r \<noteq> Inl (OSError c s)) \<Longrightarrow> length (tx w1) < length (tx w)"
  by (auto simp: raw_send_def raw_send_call_def Let_def split: list.splits txitem.splits)

function send :: "basesocket \<Rightarrow> bytes \<Rightarrow> world \<Rightarrow> (exc + nat) \<times> world" where
  "send s data w =
     (case check_cancelled w of
        (Inl e, w1) \<Rightarrow> (Inl e, w1)
      | (Inr _, w1) \<Rightarrow>
          (case raw_send (raw_socket s) data w1 of
             (Inr sent, w2) \<Rightarrow> (Inr sent, w2)
           | (Inl e, w2) \<Rightarrow>
               if e = BlockingIOError \<or> e = SSLWantWriteError then
                 (case wait_writable w2 of
                    (Inl e', w3) \<Rightarrow> (Inl e', w3)
                  | (Inr _, w3) \<Rightarrow> send s data w3)
               else if e = SSLWantReadError then
                 (case wait_readable w2 of
                    (Inl e', w3) \<Rightarrow> (Inl e', w3)
                  | (Inr _, w3) \<Rightarrow> send s data w3)
               else (Inl e, w2)))"
  by pat_completeness auto
termination
proof (relation "measure (\<lambda>(s, data, w). length (tx w))", goal_cases)
  case 1
  show ?case by simp
next
  case (2 s data w x1 w1 u x2 w2 e x3 w3 v)
  then have "tx w1 = tx w" "tx w3 = tx w2" "length (tx w2) < length (tx w1)"
    by (auto simp: wait_writable_def dest: tx_check_cancelled tx_wait_hook raw_send_pops
        dest!: sym [of "(_, _)"])
  then show ?case by simp
next
  case (3 s data w x1 w1 u x2 w2 e x3 w3 v)
  then have "tx w1 = tx w" "tx w3 = tx w2" "length (tx w2) < length (tx w1)"
    by (auto simp: wait_readable_def dest: tx_check_cancelled tx_wait_hook raw_send_pops
        dest!: sym [of "(_, _)"])
  then show ?case by simp
qed

definition sendto :: "basesocket \<Rightarrow> bytes \<Rightarrow> string \<times> int \<Rightarrow> world \<Rightarrow> (exc + nat) \<times> world" where
  "sendto s data addr w =
     (case check_cancelled w of
        (Inl e, w1) \<Rightarrow> (Inl e, w1)
      | (Inr _, w1) \<Rightarrow>
          (case raw_sendto (raw_socket s) data addr w1 of
             (Inl e, w2) \<Rightarrow>
               if e = BlockingIOError then
                 (case wait_writable w2 of
                    (Inl e', w3) \<Rightarrow> (Inl e', w3)
                  | (Inr _, w3) \<Rightarrow> raw_sendto (raw_socket s) data addr w3)
               else (Inl e, w2)
           | (Inr sent, w2) \<Rightarrow> (Inr sent, w2)))"

text \<open>The loop of \<^verbatim>\<open>sendall\<close>; \<open>to_send\<close> is the loop variable of that name.\<close>

function sendall_loop :: "basesocket \<Rightarrow> bytes \<Rightarrow> int \<Rightarrow> world \<Rightarrow> (exc + unit) \<times> world" where
  "sendall_loop s data to_send w =
     (if to_send > 0 then
        (case check_cancelled w of
           (Inl e, w1) \<Rightarrow> (Inl e, w1)
         | (Inr _, w1) \<Rightarrow>
             (case raw_send (raw_socket s) data w1 of
                (Inl e, w2) \<Rightarrow>
                  if e = BlockingIOError \<or> e = SSLWantWriteError then
                    (case wait_writable w2 of
                       (Inl e', w3) \<Rightarrow> (Inl e', w3)
                     | (Inr _, w3) \<Rightarrow> sendall_loop s data to_send w3)
                  else if e = SSLWantReadError then
                    (case wait_readable w2 of
                       (Inl e', w3) \<Rightarrow> (Inl e', w3)
                     | (Inr _, w3) \<Rightarrow> sendall_loop s data to_send w3)
                  else (Inl e, w2)
              | (Inr sent, w2) \<Rightarrow> sendall_loop s data (to_send - int sent) w2))
      else (Inr (), w))"
  by pat_completeness auto
termination
proof (relation "measure (\<lambda>(s, data, to_send, w). length (tx w))", goal_cases)
  case 1
  show ?case by simp
next
  case (2 s data to_send w x1 w1 u x2 w2 e x3 w3 v)
  then have "tx w1 = tx w" "tx w3 = tx w2" "length (tx w2) < length (tx w1)"
    by (auto simp: wait_writable_def dest: tx_check_cancelled tx_wait_hook raw_send_pops
        dest!: sym [of "(_, _)"])
  then show ?case by simp
next
  case (3 s data to_send w x1 w1 u x2 w2 e x3 w3 v)
  then have "tx w1 = tx w" "tx w3 = tx w2" "length (tx w2) < length (tx w1)"
    by (auto simp: wait_readable_def dest: tx_check_cancelled tx_wait_hook raw_send_pops
        dest!: sym [of "(_, _)"])
  then show ?case by simp
next
  case (4 s data to_send w x1 w1 u x2 w2 sent)
  then have "tx w1 = tx w" "length (tx w2) < length (tx w1)"
    by (auto dest: tx_check_cancelled raw_send_pops dest!: sym [of "(_, _)"])
  then show ?case by simp
qed

definition sendall :: "basesocket \<Rightarrow> bytes \<Rightarrow> world \<Rightarrow> (exc + unit) \<times> world" where
  "sendall s data w = sendall_loop s data (int (length data)) w"

subsection \<open>start\_tls\<close>

text \<open>
  The handshake loop of \<^verbatim>\<open>start_tls\<close>. The two waits stand in \<^verbatim>\<open>except\<close> clauses of the
  \<^verbatim>\<open>try\<close> statement, so what they raise is not caught by its last clause
  (\<^verbatim>\<open>except BaseException\<close>), which restores \<open>plain_socket\<close>.
\<close>

lemma calls_log [simp]: "calls (log ev w) = calls w"
  by (simp add: log_def)

lemma calls_wait_hook: "wait_hook ev w = (r, w1) \<Longrightarrow> calls w1 = calls w"
  by (auto simp: wait_hook_def split: list.splits option.splits)

lemma raw_call_pops: "raw_call h c w = (Inl e, w1) \<Longrightarrow> length (calls w1) < length (calls w)"
  by (auto simp: raw_call_def Let_def split: list.splits option.splits)

function handshake_loop ::
  "rawsock \<Rightarrow> basesocket \<Rightarrow> world \<Rightarrow> (exc + unit) \<times> basesocket \<times> world" where
  "handshake_loop plain_socket s w =
     (case raw_call (raw_socket s) RDoHandshake w of
        (Inr _, w1) \<Rightarrow> (Inr (), s, w1)
      | (Inl e, w1) \<Rightarrow>
          if e = SSLWantReadError then
            (case wait_readable w1 of
               (Inl e', w2) \<Rightarrow> (Inl e', s, w2)
             | (Inr _, w2) \<Rightarrow> handshake_loop plain_socket s w2)
          else if e = SSLWantWriteError then
            (case wait_writable w1 of
               (Inl e', w2) \<Rightarrow> (Inl e', s, w2)
             | (Inr _, w2) \<Rightarrow> handshake_loop plain_socket s w2)
          else (Inl e, s\<lparr>raw_socket := plain_socket\<rparr>, w1))"
  by pat_completeness auto
termination
proof (relation "measure (\<lambda>(plain_socket, s, w). length (calls w))", goal_cases)
  case 1
  show ?case by simp
next
  case (2 plain_socket s w x1 w1 e x2 w2 v)
  then have "calls w2 = calls w1" "length (calls w1) < length (calls w)"
    by (auto simp: wait_readable_def dest: calls_wait_hook raw_call_pops dest!: sym [of "(_, _)"])
  then show ?case by simp
next
  case (3 plain_socket s w x1 w1 e x2 w2 v)
  then have "calls w2 = calls w1" "length (calls w1) < length (calls w)"
    by (auto simp: wait_writable_def dest: calls_wait_hook raw_call_pops dest!: sym [of "(_, _)"])
  then show ?case by simp
qed

text \<open>
  \<open>server_side\<close> is \<^verbatim>\<open>not server_hostname\<close>: true for \<open>None\<close> and for the empty string.
  When \<^verbatim>\<open>wrap_socket\<close> raises, the assignment to \<^verbatim>\<open>self._raw_socket\<close> does not happen.
\<close>

definition start_tls ::
  "basesocket \<Rightarrow> nat \<Rightarrow> string option \<Rightarrow> world \<Rightarrow> (exc + unit) \<times> basesocket \<times> world" where
  "start_tls s context hostname w =
     (let plain_socket = raw_socket s;
          server_side = (hostname = None \<or> hostname = Some []) in
      case raw_wrap_socket plain_socket context server_side w of
        (Inl e, w1) \<Rightarrow> (Inl e, s, w1)
      | (Inr _, w1) \<Rightarrow> handshake_loop plain_socket (s\<lparr>raw_socket := TLS plain_socket\<rparr>) w1)"

section \<open>SocketStream\<close>

record socketstream =
  socket :: basesocket
  ssl_context :: "nat option"
  server_hostname :: "string option"

definition receive_some :: "socketstream \<Rightarrow> int \<Rightarrow> world \<Rightarrow> (exc + bytes) \<times> world" where
  "receive_some st max_bytes w = recv (socket st) max_bytes False w"

subsection \<open>receive\_exactly\<close>

text \<open>
  The loop of \<^verbatim>\<open>receive_exactly\<close>. \<open>buf\<close> is the bytearray, \<open>pos\<close> the start of
  \<^verbatim>\<open>view\<close> in it, \<open>nbytes\<close> the number of bytes still wanted.
\<close>

function receive_exactly_loop ::
  "socketstream \<Rightarrow> bytes \<Rightarrow> nat \<Rightarrow> int \<Rightarrow> world \<Rightarrow> (exc + bytes) \<times> world" where
  "receive_exactly_loop st buf pos nbytes w =
     (if nbytes > 0 then
        (case recv_into (socket st) buf pos nbytes w of
           (Inl e, w1) \<Rightarrow> (Inl e, w1)
         | (Inr (bytes_read, buf1), w1) \<Rightarrow>
             if bytes_read = 0 then
               (Inl (IncompleteRead (take (nat (int (length buf1) - nbytes)) buf1)), w1)
             else receive_exactly_loop st buf1 (pos + bytes_read) (nbytes - int bytes_read) w1)
      else (Inr buf, w))"
  by pat_completeness auto
termination
  by (relation "measure (\<lambda>(st, buf, pos, nbytes, w). nat nbytes)") auto

text \<open>\<^verbatim>\<open>bytearray(nbytes)\<close> raises \<open>ValueError\<close> on a negative count; otherwise it is zero-filled.\<close>

definition receive_exactly :: "socketstream \<Rightarrow> int \<Rightarrow> world \<Rightarrow> (exc + bytes) \<times> world" where
  "receive_exactly st nbytes w =
     (if nbytes < 0 then (Inl ValueError, w)
      else receive_exactly_loop st (replicate (nat nbytes) (CHR 0x00)) 0 nbytes w)"

subsection \<open>receive\_until\<close>

text \<open>
  \<^verbatim>\<open>bytes.find(sub, start)\<close>: a negative \<open>start\<close> counts from the end of the bytes
  (and is 0 if still negative); the result is the lowest index from \<open>start\<close> on where
  \<open>sub\<close> occurs, or \<open>-1\<close>.
\<close>

definition bytes_find :: "bytes \<Rightarrow> bytes \<Rightarrow> int \<Rightarrow> int" where
  "bytes_find buf sub start =
     (let n = length buf; m = length sub;
          s = (if start < 0 then nat (max 0 (int n + start)) else nat start) in
      case List.find (\<lambda>i. take m (drop i buf) = sub) [s ..< Suc n - m] of
        None \<Rightarrow> - 1
      | Some i \<Rightarrow> int i)"

function receive_until_loop ::
  "socketstream \<Rightarrow> bytes \<Rightarrow> int \<Rightarrow> int \<Rightarrow> bytes \<Rightarrow> world \<Rightarrow> (exc + bytes) \<times> world" where
  "receive_until_loop st delimiter max_size offset buf w =
     (if int (length buf) < max_size then
        (case recv (socket st) (max_size - int (length buf)) True w of
           (Inl e, w1) \<Rightarrow> (Inl e, w1)
         | (Inr data, w1) \<Rightarrow>
             if data = [] then (Inl (IncompleteRead buf), w1)
             else
               (let buf1 = buf @ data;
                    index = bytes_find buf1 delimiter offset in
                if index \<ge> 0 then
                  (case recv (socket st) (index + int (length delimiter)) False w1 of
                     (Inl e, w2) \<Rightarrow> (Inl e, w2)
                   | (Inr _, w2) \<Rightarrow> (Inr (take (nat index) buf1), w2))
                else
                  (case recv (socket st) (int (length data)) False w1 of
                     (Inl e, w2) \<Rightarrow> (Inl e, w2)
                   | (Inr _, w2) \<Rightarrow>
                       receive_until_loop st delimiter max_size
                         (offset + int (length data) - int (length delimiter) + 1) buf1 w2)))
      else (Inl (DelimiterNotFound buf), w))"
  by pat_completeness auto
termination
  by (relation "measure (\<lambda>(st, delimiter, max_size, offset, buf, w). nat (max_size - int (length buf)))")
     auto

definition receive_until ::
  "socketstream \<Rightarrow> bytes \<Rightarrow> int \<Rightarrow> world \<Rightarrow> (exc + bytes) \<times> world" where
  "receive_until st delimiter max_size w = receive_until_loop st delimiter max_size 0 [] w"

declare recv.simps [simp del] recv_into.simps [simp del]
  receive_exactly_loop.simps [simp del] receive_until_loop.simps [simp del]
  send.simps [simp del] sendall_loop.simps [simp del] handshake_loop.simps [simp del]

subsection \<open>receive\_chunks\<close>

text \<open>
  The generator \<^verbatim>\<open>receive_chunks\<close> is modelled by what it does when it is run to its
  end: the chunks it yields, in order, and how it ends (\<open>None\<close>: it returns; \<open>Some e\<close>:
  it raises \<open>e\<close>). Every chunk it yields has been removed from the receive queue,
  which is why the loop ends; \<open>rx_size\<close> measures the queue.
\<close>

fun rx_size :: "rxitem list \<Rightarrow> nat" where
  "rx_size [] = 0"
| "rx_size (Chunk c # r) = Suc (length c) + rx_size r"
| "rx_size (RxRaise e # r) = Suc (rx_size r)"

lemma raw_recv_size:
  "raw_recv h sz False w = (r, w1) \<Longrightarrow> rx_size (rx w1) \<le> rx_size (rx w)"
  by (auto simp: raw_recv_def Let_def rx_consume_def split: if_splits list.splits rxitem.splits)

lemma raw_recv_shrinks:
  "raw_recv h sz False w = (Inr d, w1) \<Longrightarrow> d \<noteq> [] \<Longrightarrow> rx_size (rx w1) < rx_size (rx w)"
  by (auto simp: raw_recv_def Let_def rx_consume_def split: if_splits list.splits rxitem.splits)

lemma recv_shrinks:
  "recv s sz False w = (Inr d, w') \<Longrightarrow> d \<noteq> [] \<Longrightarrow> rx_size (rx w') < rx_size (rx w)"
proof (induction s sz "False" w rule: recv.induct)
  case (1 s sz w)
  obtain r1 w1 where c: "check_cancelled w = (r1, w1)" by (cases "check_cancelled w")
  then have w1: "rx w1 = rx w" by (rule rx_check_cancelled)
  obtain r2 w2 where r: "raw_recv (raw_socket s) sz False w1 = (r2, w2)"
    by (cases "raw_recv (raw_socket s) sz False w1")
  show ?case
  proof (cases r1)
    case (Inl e)
    with c "1.prems" show ?thesis by (subst (asm) recv.simps) simp
  next
    case (Inr u)
    note r1 = this
    show ?thesis
    proof (cases r2)
      case (Inr d2)
      with c r r1 "1.prems" have "d2 = d" "w2 = w'" by (subst (asm) recv.simps, simp)+
      with r Inr "1.prems"(2) w1 raw_recv_shrinks show ?thesis by metis
    next
      case (Inl e)
      from r have le: "rx_size (rx w2) \<le> rx_size (rx w)" using raw_recv_size w1 by metis
      consider (rd) "e = BlockingIOError \<or> e = SSLWantReadError"
        | (wr) "e \<noteq> BlockingIOError" "e \<noteq> SSLWantReadError" "e = SSLWantWriteError"
        | (other) "e \<noteq> BlockingIOError" "e \<noteq> SSLWantReadError" "e \<noteq> SSLWantWriteError" by blast
      then show ?thesis
      proof cases
        case rd
        obtain r3 w3 where h: "wait_readable w2 = (r3, w3)" by (cases "wait_readable w2")
        then have w3: "rx w3 = rx w2" unfolding wait_readable_def by (rule rx_wait_hook)
        show ?thesis
        proof (cases r3)
          case (Inl e')
          with c r r1 \<open>r2 = Inl e\<close> rd h "1.prems" show ?thesis by (subst (asm) recv.simps) auto
        next
          case (Inr v)
          with c r r1 \<open>r2 = Inl e\<close> rd h "1.prems" have "recv s sz False w3 = (Inr d, w')"
            by (subst (asm) recv.simps) auto
          from "1.hyps"(1) [OF c [symmetric] r1 r [symmetric] \<open>r2 = Inl e\<close> rd h [symmetric] Inr this "1.prems"(2)]
          show ?thesis using w3 le by simp
        qed
      next
        case wr
        obtain r3 w3 where h: "wait_writable w2 = (r3, w3)" by (cases "wait_writable w2")
        then have w3: "rx w3 = rx w2" unfolding wait_writable_def by (rule rx_wait_hook)
        show ?thesis
        proof (cases r3)
          case (Inl e')
          with c r r1 \<open>r2 = Inl e\<close> wr h "1.prems" show ?thesis by (subst (asm) recv.simps) auto
        next
          case (Inr v)
          with c r r1 \<open>r2 = Inl e\<close> wr h "1.prems" have "recv s sz False w3 = (Inr d, w')"
            by (subst (asm) recv.simps) auto
          have nrd: "\<not> (e = BlockingIOError \<or> e = SSLWantReadError)" using wr by simp
          from "1.hyps"(2) [OF c [symmetric] r1 r [symmetric] \<open>r2 = Inl e\<close> nrd wr(3) h [symmetric] Inr \<open>recv s sz False w3 = (Inr d, w')\<close> "1.prems"(2)]
          show ?thesis using w3 le by simp
        qed
      next
        case other
        with c r r1 \<open>r2 = Inl e\<close> "1.prems" show ?thesis by (subst (asm) recv.simps) auto
      qed
    qed
  qed
qed

function receive_chunks ::
  "socketstream \<Rightarrow> int \<Rightarrow> world \<Rightarrow> bytes list \<times> exc option \<times> world" where
  "receive_chunks st max_size w =
     (case receive_some st max_size w of
        (Inl e, w1) \<Rightarrow> ([], Some e, w1)
      | (Inr data, w1) \<Rightarrow>
          if data \<noteq> [] then
            (case receive_chunks st max_size w1 of
               (chunks, fin, w2) \<Rightarrow> (data # chunks, fin, w2))
          else ([], None, w1))"
  by pat_completeness auto
termination
proof (relation "measure (\<lambda>(st, max_size, w). rx_size (rx w))", goal_cases)
  case 1
  show ?case by simp
next
  case (2 st max_size w x1 w1 data)
  then have "recv (socket st) max_size False w = (Inr data, w1)"
    by (simp add: receive_some_def)
  from recv_shrinks [OF this] 2 show ?case by simp
qed

declare receive_chunks.simps [simp del]

subsection \<open>send\_all and start\_tls\<close>

definition send_all :: "socketstream \<Rightarrow> bytes \<Rightarrow> world \<Rightarrow> (exc + unit) \<times> world" where
  "send_all st data w = sendall (socket st) data w"

text \<open>
  \<^verbatim>\<open>context or self._ssl_context or ssl.create_default_context()\<close>: a context object is
  never false, so the first one that is not \<open>None\<close> is taken.
\<close>

definition create_default_context :: nat where
  "create_default_context = 0"

definition stream_start_tls ::
  "socketstream \<Rightarrow> nat option \<Rightarrow> world \<Rightarrow> (exc + unit) \<times> socketstream \<times> world" where
  "stream_start_tls st context w =
     (let ctx = (case context of
                   Some c \<Rightarrow> c
                 | None \<Rightarrow> (case ssl_context st of Some c \<Rightarrow> c | None \<Rightarrow> create_default_context)) in
      case start_tls (socket st) ctx (server_hostname st) w of
        (r, s', w1) \<Rightarrow> (r, st\<lparr>socket := s'\<rparr>, w1))"

section \<open>SocketStreamServer\<close>

record socketstreamserver =
  listener :: basesocket
  listener_ssl_context :: "nat option"

text \<open>
  \<^verbatim>\<open>accept\<close>. The stream holds the very socket object \<^verbatim>\<open>sock\<close> that the handler closes,
  so the handler closes it as \<^verbatim>\<open>start_tls\<close> left it.
\<close>

definition server_accept ::
  "socketstreamserver \<Rightarrow> world \<Rightarrow> (exc + socketstream) \<times> world" where
  "server_accept srv w =
     (case accept (listener srv) w of
        (Inl e, w1) \<Rightarrow> (Inl e, w1)
      | (Inr (sock, addr), w1) \<Rightarrow>
          (let stream = \<lparr> socket = sock, ssl_context = None, server_hostname = None \<rparr> in
           case listener_ssl_context srv of
             None \<Rightarrow> (Inr stream, w1)
           | Some ctx \<Rightarrow>
               (case stream_start_tls stream (Some ctx) w1 of
                  (Inr _, stream', w2) \<Rightarrow> (Inr stream', w2)
                | (Inl e, stream', w2) \<Rightarrow> (Inl e, close (socket stream') w2))))"

section \<open>DatagramSocket\<close>

record datagramsocket =
  dgram_socket :: basesocket

text \<open>\<^verbatim>\<open>send\<close>; the address is given as the string that \<^verbatim>\<open>str(address)\<close> yields.\<close>

definition datagram_send ::
  "datagramsocket \<Rightarrow> bytes \<Rightarrow> string option \<Rightarrow> int option \<Rightarrow> world \<Rightarrow> (exc + unit) \<times> world" where
  "datagram_send dg data address port w =
     (if address \<noteq> None \<and> port \<noteq> None then
        (case sendto (dgram_socket dg) data (the address, the port) w of
           (Inl e, w1) \<Rightarrow> (Inl e, w1)
         | (Inr _, w1) \<Rightarrow> (Inr (), w1))
      else
        (case send (dgram_socket dg) data w of
           (Inl e, w1) \<Rightarrow> (Inl e, w1)
         | (Inr _, w1) \<Rightarrow> (Inr (), w1)))"

section \<open>Streams that deliver their bytes\<close>

text \<open>
  The properties of the framing methods are stated for a task that is not cancelled
  and a stream on which nothing fails: every wait returns, every chunk that arrives
  is non-empty, and the only exceptions of the raw socket are the three that the
  adapter retries. \<open>rx_bytes\<close> is the byte sequence such a stream holds.
\<close>

definition transient :: "exc \<Rightarrow> bool" where
  "transient e = (e = BlockingIOError \<or> e = SSLWantReadError \<or> e = SSLWantWriteError)"

fun rx_ok :: "rxitem \<Rightarrow> bool" where
  "rx_ok (Chunk c) = (c \<noteq> [])"
| "rx_ok (RxRaise e) = transient e"

definition quiet :: "world \<Rightarrow> bool" where
  "quiet w = (\<not> cancelled w \<and> list_all (\<lambda>x. x = None) (waits w) \<and> list_all rx_ok (rx w))"

fun rx_bytes :: "rxitem list \<Rightarrow> bytes" where
  "rx_bytes [] = []"
| "rx_bytes (Chunk c # r) = c @ rx_bytes r"
| "rx_bytes (RxRaise e # r) = rx_bytes r"

fun settle :: "rxitem list \<Rightarrow> rxitem list" where
  "settle (RxRaise e # r) = settle r"
| "settle r = r"

fun rx_head :: "rxitem list \<Rightarrow> bytes" where
  "rx_head (Chunk c # r) = c"
| "rx_head r = []"

fun rx_after :: "nat \<Rightarrow> rxitem list \<Rightarrow> rxitem list" where
  "rx_after n (Chunk c # r) = rx_consume n c r"
| "rx_after n r = r"

lemma quiet_wait_hook:
  "quiet w \<Longrightarrow> \<exists>w'. wait_hook ev w = (Inr (), w') \<and> quiet w' \<and> rx w' = rx w"
  by (cases "waits w") (auto simp: wait_hook_def quiet_def log_def split: option.splits)

lemma quiet_check: "quiet w \<Longrightarrow> check_cancelled w = (Inr (), log CheckCancelled w)"
  by (simp add: check_cancelled_def quiet_def)

lemma quiet_log [simp]: "quiet (log ev w) = quiet w"
  by (simp add: quiet_def log_def)

lemma recv_quiet:
  "quiet w \<Longrightarrow> 0 \<le> sz \<Longrightarrow> (peek \<longrightarrow> \<not> is_tls (raw_socket s)) \<Longrightarrow>
   \<exists>w'. recv s sz peek w = (Inr (take (nat sz) (rx_head (settle (rx w)))), w') \<and> quiet w' \<and>
        rx w' = (if peek then settle (rx w) else rx_after (nat sz) (settle (rx w)))"
proof (induction "rx w" arbitrary: w)
  case Nil
  then show ?case
    by (subst recv.simps) (simp add: quiet_check raw_recv_def Let_def)
next
  case (Cons i r)
  show ?case
  proof (cases i)
    case (Chunk c)
    with Cons.prems Cons.hyps(2) [symmetric] show ?thesis
      by (subst recv.simps)
         (auto simp: quiet_check raw_recv_def Let_def quiet_def rx_consume_def log_def)
  next
    case (RxRaise e)
    with Cons.prems Cons.hyps(2) [symmetric] have tr: "transient e" and q: "quiet (log (Raw (raw_socket s) RRecv) (log CheckCancelled w)\<lparr>rx := r\<rparr>)"
      by (auto simp: quiet_def log_def)
    let ?w2 = "log (Raw (raw_socket s) RRecv) (log CheckCancelled w)\<lparr>rx := r\<rparr>"
    have raw: "raw_recv (raw_socket s) sz peek (log CheckCancelled w) = (Inl e, ?w2)"
      using Cons.prems Cons.hyps(2) [symmetric] RxRaise by (auto simp: raw_recv_def Let_def)
    define ev where "ev = (if e = SSLWantWriteError then WaitWritable else WaitReadable)"
    obtain w3 where w3: "wait_hook ev ?w2 = (Inr (), w3)" "quiet w3" "rx w3 = r"
      using quiet_wait_hook [OF q, of ev] by (auto simp: log_def)
    have "r = rx w3" using w3 by simp
    from Cons.hyps(1) [OF this w3(2) Cons.prems(2,3)] obtain w' where
      w': "recv s sz peek w3 = (Inr (take (nat sz) (rx_head (settle (rx w3)))), w')" "quiet w'"
          "rx w' = (if peek then settle (rx w3) else rx_after (nat sz) (settle (rx w3)))"
      by blast
    have "recv s sz peek w = recv s sz peek w3"
      using tr w3 raw Cons.prems
      by (subst recv.simps)
         (auto simp: quiet_check transient_def wait_readable_def wait_writable_def ev_def)
    with w' w3 RxRaise Cons.hyps(2) [symmetric] show ?thesis by auto
  qed
qed

lemma rx_bytes_settle [simp]: "rx_bytes (settle r) = rx_bytes r"
  by (induction r rule: settle.induct) auto

lemma rx_head_prefix: "rx_bytes (settle r) = rx_head (settle r) @ rx_bytes (tl (settle r))"
  by (induction r rule: settle.induct) auto

lemma rx_bytes_consume: "rx_bytes (rx_consume n c r) = drop n c @ rx_bytes r"
  by (simp add: rx_consume_def)

lemma rx_bytes_after:
  "rx_bytes (rx_after n (settle r)) = drop (length (take n (rx_head (settle r)))) (rx_bytes r)"
  by (induction r rule: settle.induct) (auto simp: rx_bytes_consume min_def)

lemma rx_head_empty: "list_all rx_ok r \<Longrightarrow> rx_head (settle r) = [] \<Longrightarrow> rx_bytes r = []"
  by (induction r rule: settle.induct) auto

lemma take_length_take_append: "take (length (take n h)) (h @ t) = take n h"
  by (cases "n \<le> length h") (simp_all add: min_def)

lemma take_rx_head_prefix:
  "take n (rx_head (settle r)) = take (length (take n (rx_head (settle r)))) (rx_bytes r)"
proof -
  have "rx_bytes r = rx_head (settle r) @ rx_bytes (tl (settle r))"
    using rx_head_prefix [of r] by simp
  then show ?thesis
    by (metis take_length_take_append)
qed

lemma recv_into_quiet:
  "quiet w \<Longrightarrow> 0 < nbytes \<Longrightarrow> nat nbytes \<le> length buf - pos \<Longrightarrow>
   \<exists>w'. recv_into s buf pos nbytes w =
          (Inr (length (take (nat nbytes) (rx_head (settle (rx w)))),
                take pos buf @ take (nat nbytes) (rx_head (settle (rx w))) @
                drop (pos + length (take (nat nbytes) (rx_head (settle (rx w))))) buf), w') \<and>
        quiet w' \<and> rx w' = rx_after (nat nbytes) (settle (rx w))"
proof (induction "rx w" arbitrary: w)
  case Nil
  then show ?case
    by (subst recv_into.simps) (simp add: quiet_check raw_recv_into_def Let_def)
next
  case (Cons i r)
  show ?case
  proof (cases i)
    case (Chunk c)
    with Cons.prems Cons.hyps(2) [symmetric] show ?thesis
      by (subst recv_into.simps)
         (auto simp: quiet_check raw_recv_into_def Let_def quiet_def rx_consume_def log_def)
  next
    case (RxRaise e)
    let ?w2 = "log (Raw (raw_socket s) RRecvInto) (log CheckCancelled w)\<lparr>rx := r\<rparr>"
    from RxRaise Cons.prems Cons.hyps(2) [symmetric] have tr: "transient e" and q: "quiet ?w2"
      by (auto simp: quiet_def log_def)
    have raw: "raw_recv_into (raw_socket s) buf pos nbytes (log CheckCancelled w) = (Inl e, ?w2)"
      using Cons.prems Cons.hyps(2) [symmetric] RxRaise by (simp add: raw_recv_into_def Let_def)
    define ev where "ev = (if e = SSLWantWriteError then WaitWritable else WaitReadable)"
    obtain w3 where w3: "wait_hook ev ?w2 = (Inr (), w3)" "quiet w3" "rx w3 = r"
      using quiet_wait_hook [OF q, of ev] by (auto simp: log_def)
    have "r = rx w3" using w3 by simp
    from Cons.hyps(1) [OF this w3(2) Cons.prems(2,3)] obtain w' where
      w': "recv_into s buf pos nbytes w3 =
          (Inr (length (take (nat nbytes) (rx_head (settle (rx w3)))),
                take pos buf @ take (nat nbytes) (rx_head (settle (rx w3))) @
                drop (pos + length (take (nat nbytes) (rx_head (settle (rx w3))))) buf), w')"
          "quiet w'" "rx w' = rx_after (nat nbytes) (settle (rx w3))"
      by blast
    have "recv_into s buf pos nbytes w = recv_into s buf pos nbytes w3"
      using tr w3 raw Cons.prems
      by (subst recv_into.simps)
         (auto simp: quiet_check transient_def wait_readable_def wait_writable_def ev_def)
    with w' w3 RxRaise Cons.hyps(2) [symmetric] show ?thesis by auto
  qed
qed

lemma receive_exactly_loop_quiet:
  "quiet w \<Longrightarrow> 0 \<le> nbytes \<Longrightarrow> pos + nat nbytes = length buf \<Longrightarrow>
   fst (receive_exactly_loop st buf pos nbytes w) =
     (if nat nbytes \<le> length (rx_bytes (rx w))
      then Inr (take pos buf @ take (nat nbytes) (rx_bytes (rx w)))
      else Inl (IncompleteRead (take pos buf @ rx_bytes (rx w))))"
proof (induction st buf pos nbytes w rule: receive_exactly_loop.induct)
  case (1 st buf pos nbytes w)
  show ?case
  proof (cases "nbytes > 0")
    case False
    with "1.prems" show ?thesis
      by (subst receive_exactly_loop.simps) simp
  next
    case True
    define d where "d = take (nat nbytes) (rx_head (settle (rx w)))"
    define buf1 where "buf1 = take pos buf @ d @ drop (pos + length d) buf"
    from True "1.prems" have room: "nat nbytes \<le> length buf - pos" by simp
    from recv_into_quiet [OF "1.prems"(1) True room, of "socket st"] obtain w1 where
      w1: "recv_into (socket st) buf pos nbytes w = (Inr (length d, buf1), w1)"
          "quiet w1" "rx w1 = rx_after (nat nbytes) (settle (rx w))"
      unfolding d_def buf1_def by blast
    have dlen: "length d \<le> nat nbytes" by (simp add: d_def)
    have len1: "length buf1 = length buf"
      using dlen "1.prems" by (simp add: buf1_def)
    have dpre: "d = take (length d) (rx_bytes (rx w))"
      unfolding d_def by (rule take_rx_head_prefix)
    have rest: "rx_bytes (rx w1) = drop (length d) (rx_bytes (rx w))"
      unfolding w1(3) d_def by (rule rx_bytes_after)
    show ?thesis
    proof (cases "length d = 0")
      case True
      then have "rx_head (settle (rx w)) = []"
        using \<open>nbytes > 0\<close> by (auto simp: d_def min_def split: if_splits)
      then have "rx_bytes (rx w) = []"
        using "1.prems"(1) rx_head_empty by (simp add: quiet_def)
      moreover have "buf1 = buf" using True by (simp add: buf1_def)
      moreover have "nat (int (length buf) - nbytes) = pos"
        using "1.prems" \<open>nbytes > 0\<close> by auto
      ultimately show ?thesis
        using True \<open>nbytes > 0\<close> w1
        by (subst receive_exactly_loop.simps) simp
    next
      case False
      have step: "receive_exactly_loop st buf pos nbytes w =
                  receive_exactly_loop st buf1 (pos + length d) (nbytes - int (length d)) w1"
        using False \<open>nbytes > 0\<close> w1 by (subst receive_exactly_loop.simps) simp
      have pre: "0 \<le> nbytes - int (length d)"
           "pos + length d + nat (nbytes - int (length d)) = length buf1"
        using dlen "1.prems" len1 by auto
      have ih: "fst (receive_exactly_loop st buf1 (pos + length d) (nbytes - int (length d)) w1) =
         (if nat (nbytes - int (length d)) \<le> length (rx_bytes (rx w1))
          then Inr (take (pos + length d) buf1 @ take (nat (nbytes - int (length d))) (rx_bytes (rx w1)))
          else Inl (IncompleteRead (take (pos + length d) buf1 @ rx_bytes (rx w1))))"
        using "1.IH" [OF \<open>nbytes > 0\<close> w1(1) [symmetric] refl refl False w1(2) pre] .
      have tk: "take (pos + length d) buf1 = take pos buf @ d"
        using "1.prems" dlen by (simp add: buf1_def)
      have dle: "length d \<le> length (rx_bytes (rx w))"
        using dpre by (metis nat_le_linear take_all)
      have a: "d @ take (nat (nbytes - int (length d))) (drop (length d) (rx_bytes (rx w))) =
               take (nat nbytes) (rx_bytes (rx w))"
      proof -
        have "nat nbytes = length d + nat (nbytes - int (length d))" using dlen by auto
        then show ?thesis
          using dpre by (metis take_add)
      qed
      have b: "d @ drop (length d) (rx_bytes (rx w)) = rx_bytes (rx w)"
        using dpre by (metis append_take_drop_id)
      have c: "nat (nbytes - int (length d)) \<le> length (rx_bytes (rx w)) - length d \<longleftrightarrow>
               nat nbytes \<le> length (rx_bytes (rx w))"
        using dlen dle by auto
      show ?thesis
        unfolding step ih tk rest using a b c by simp
    qed
  qed
qed

section \<open>Cancellation checks\<close>

text \<open>
  An operation checks for cancellation first when the first call it makes to a
  collaborator is \<^verbatim>\<open>_check_cancelled\<close>, and when, the task being cancelled, it fails
  with \<open>Cancelled\<close> having made no other call: the world is as before but for the
  check in the log.
\<close>

definition checks_first :: "world \<Rightarrow> (exc + 'a) \<times> world \<Rightarrow> bool" where
  "checks_first w res =
     (prefix (trace w @ [CheckCancelled]) (trace (snd res)) \<and>
      (cancelled w \<longrightarrow> res = (Inl Cancelled, log CheckCancelled w)))"

text \<open>The calls logged between two worlds, and the raw socket calls among some events.\<close>

definition new_events :: "world \<Rightarrow> world \<Rightarrow> event list" where
  "new_events w w' = drop (length (trace w)) (trace w')"

fun rawcalls :: "event list \<Rightarrow> rawcall list" where
  "rawcalls [] = []"
| "rawcalls (Raw h c # es) = c # rawcalls es"
| "rawcalls (e # es) = rawcalls es"

lemma trace_check: "check_cancelled w = (r, w1) \<Longrightarrow> trace w1 = trace w @ [CheckCancelled]"
  by (auto simp: check_cancelled_def log_def split: if_splits)

lemma trace_wait: "wait_hook ev w = (r, w1) \<Longrightarrow> trace w1 = trace w @ [ev]"
  by (auto simp: wait_hook_def log_def split: list.splits option.splits)

lemma trace_raw_recv: "raw_recv h sz pk w = (r, w1) \<Longrightarrow> trace w1 = trace w @ [Raw h RRecv]"
  by (auto simp: raw_recv_def log_def Let_def split: if_splits list.splits rxitem.splits)

lemma trace_raw_recv_into:
  "raw_recv_into h buf pos n w = (r, w1) \<Longrightarrow> trace w1 = trace w @ [Raw h RRecvInto]"
  by (auto simp: raw_recv_into_def log_def Let_def split: if_splits list.splits rxitem.splits)

lemma trace_raw_send: "raw_send h data w = (r, w1) \<Longrightarrow> trace w1 = trace w @ [Raw h RSend]"
  by (auto simp: raw_send_def raw_send_call_def log_def Let_def split: list.splits txitem.splits)

text \<open>One turn of the retry loop of \<open>recv\<close>: it ends, or it has waited and starts again.\<close>

lemma recv_turn:
  obtains
    (stop) r w' t where "recv s sz pk w = (r, w')" "trace w' = trace w @ CheckCancelled # t"
      "cancelled w \<longrightarrow> r = Inl Cancelled \<and> w' = log CheckCancelled w"
  | (again) w3 t where "recv s sz pk w = recv s sz pk w3" "trace w3 = trace w @ CheckCancelled # t"
      "length (rx w3) < length (rx w)" "\<not> cancelled w"
proof (cases "cancelled w")
  case True
  then have "recv s sz pk w = (Inl Cancelled, log CheckCancelled w)"
    by (subst recv.simps) (simp add: check_cancelled_def)
  with True stop [of "Inl Cancelled" "log CheckCancelled w" "[]"] show ?thesis
    by (simp add: log_def)
next
  case False
  define w1 where "w1 = log CheckCancelled w"
  have c: "check_cancelled w = (Inr (), w1)"
    using False by (simp add: check_cancelled_def w1_def)
  obtain r2 w2 where r: "raw_recv (raw_socket s) sz pk w1 = (r2, w2)"
    by (cases "raw_recv (raw_socket s) sz pk w1")
  have t2: "trace w2 = trace w @ [CheckCancelled, Raw (raw_socket s) RRecv]"
    using trace_raw_recv [OF r] by (simp add: w1_def log_def)
  consider (ret) "\<forall>e. r2 = Inl e \<longrightarrow> e \<noteq> BlockingIOError \<and> e \<noteq> SSLWantReadError \<and> e \<noteq> SSLWantWriteError"
    | (retry) e where "r2 = Inl e" "e = BlockingIOError \<or> e = SSLWantReadError \<or> e = SSLWantWriteError"
    by blast
  then show ?thesis
  proof cases
    case ret
    then have "recv s sz pk w = (r2, w2)"
      using c r by (subst recv.simps) (auto split: sum.splits)
    with stop [of r2 w2] t2 False show ?thesis by simp
  next
    case retry
    define ev where "ev = (if e = SSLWantWriteError then WaitWritable else WaitReadable)"
    obtain r3 w3 where h: "wait_hook ev w2 = (r3, w3)" by (cases "wait_hook ev w2")
    have t3: "trace w3 = trace w @ [CheckCancelled, Raw (raw_socket s) RRecv, ev]"
      using trace_wait [OF h] t2 by simp
    have step: "recv s sz pk w = (case r3 of Inl e' \<Rightarrow> (Inl e', w3) | Inr _ \<Rightarrow> recv s sz pk w3)"
      using c r retry h
      by (subst recv.simps) (auto simp: wait_readable_def wait_writable_def ev_def split: sum.splits)
    show ?thesis
    proof (cases r3)
      case (Inl e')
      with step stop [of "Inl e'" w3] t3 False show ?thesis by simp
    next
      case (Inr u)
      have "length (rx w3) < length (rx w)"
        using raw_recv_retry [OF r [unfolded retry(1)]] retry(2) rx_wait_hook [OF h]
        by (auto simp: w1_def)
      with Inr step again [of w3] t3 False show ?thesis by simp
    qed
  qed
qed

lemma recv_first_event:
  "\<exists>t. trace (snd (recv s sz pk w)) = trace w @ CheckCancelled # t"
proof (induction "length (rx w)" arbitrary: w rule: less_induct)
  case less
  show ?case
  proof (cases rule: recv_turn [of s sz pk w])
    case (stop r w' t)
    then show ?thesis by simp
  next
    case (again w3 t)
    from less [OF again(3)] obtain t' where "trace (snd (recv s sz pk w3)) = trace w3 @ CheckCancelled # t'"
      by blast
    with again show ?thesis by simp
  qed
qed

lemma checks_firstI:
  "\<exists>t. trace (snd res) = trace w @ CheckCancelled # t \<Longrightarrow>
   (cancelled w \<Longrightarrow> res = (Inl Cancelled, log CheckCancelled w)) \<Longrightarrow> checks_first w res"
  by (auto simp: checks_first_def prefix_def)

lemma trace_raw_accept: "raw_accept h w = (r, w1) \<Longrightarrow> trace w1 = trace w @ [Raw h RAccept]"
  by (auto simp: raw_accept_def log_def Let_def split: list.splits sum.splits)

lemma trace_raw_call: "raw_call h c w = (r, w1) \<Longrightarrow> trace w1 = trace w @ [Raw h c]"
  by (auto simp: raw_call_def log_def Let_def split: list.splits option.splits)

lemma trace_raw_recvfrom: "raw_recvfrom h sz w = (r, w1) \<Longrightarrow> trace w1 = trace w @ [Raw h RRecvFrom]"
  by (auto simp: raw_recvfrom_def log_def Let_def split: if_splits list.splits sum.splits)

lemma trace_raw_recvfrom_into:
  "raw_recvfrom_into h buf sz w = (r, w1) \<Longrightarrow> trace w1 = trace w @ [Raw h RRecvFromInto]"
  by (auto simp: raw_recvfrom_into_def log_def Let_def split: if_splits list.splits sum.splits)

lemma trace_raw_sendto: "raw_sendto h data a w = (r, w1) \<Longrightarrow> trace w1 = trace w @ [Raw h RSendTo]"
  by (auto simp: raw_sendto_def raw_send_call_def log_def Let_def split: list.splits txitem.splits)

lemma trace_snd_raw [simp]:
  "trace (snd (raw_accept h w)) = trace w @ [Raw h RAccept]"
  "trace (snd (raw_call h c w)) = trace w @ [Raw h c]"
  "trace (snd (raw_recvfrom h sz w)) = trace w @ [Raw h RRecvFrom]"
  "trace (snd (raw_recvfrom_into h buf sz w)) = trace w @ [Raw h RRecvFromInto]"
  "trace (snd (raw_sendto h data a w)) = trace w @ [Raw h RSendTo]"
  using trace_raw_accept [OF prod.collapse [symmetric]] trace_raw_call [OF prod.collapse [symmetric]]
    trace_raw_recvfrom [OF prod.collapse [symmetric]]
    trace_raw_recvfrom_into [OF prod.collapse [symmetric]]
    trace_raw_sendto [OF prod.collapse [symmetric]]
  by blast+

lemma accept_checks_first: "checks_first w (accept s w)"
proof (rule checks_firstI)
  show "\<exists>t. trace (snd (accept s w)) = trace w @ CheckCancelled # t"
    unfolding accept_def wait_readable_def
    by (auto simp: init_def log_def split: prod.splits sum.splits
        dest!: trace_check trace_raw_accept trace_wait)
  show "accept s w = (Inl Cancelled, log CheckCancelled w)" if "cancelled w"
    using that by (simp add: accept_def check_cancelled_def)
qed


lemma bind_checks_first: "checks_first w (bind s a w)"
proof (rule checks_firstI)
  show "\<exists>t. trace (snd (bind s a w)) = trace w @ CheckCancelled # t"
    unfolding bind_def run_in_thread_def
    by (auto simp: log_def split: prod.splits sum.splits address.splits host.splits
        dest!: trace_check trace_raw_call)
  show "bind s a w = (Inl Cancelled, log CheckCancelled w)" if "cancelled w"
    using that by (simp add: bind_def check_cancelled_def)
qed

lemma connect_checks_first: "checks_first w (connect ec s a w)"
proof (rule checks_firstI)
  show "\<exists>t. trace (snd (connect ec s a w)) = trace w @ CheckCancelled # t"
    unfolding connect_def wait_writable_def raw_getsockopt_def
    by (auto simp: log_def split: prod.splits sum.splits option.splits
        dest!: trace_check trace_raw_call trace_wait)
  show "connect ec s a w = (Inl Cancelled, log CheckCancelled w)" if "cancelled w"
    using that by (simp add: connect_def check_cancelled_def)
qed

lemma recvfrom_checks_first: "checks_first w (recvfrom s sz w)"
proof (rule checks_firstI)
  show "\<exists>t. trace (snd (recvfrom s sz w)) = trace w @ CheckCancelled # t"
    unfolding recvfrom_def wait_readable_def
    by (auto split: prod.splits sum.splits dest!: trace_check trace_raw_recvfrom trace_wait)
  show "recvfrom s sz w = (Inl Cancelled, log CheckCancelled w)" if "cancelled w"
    using that by (simp add: recvfrom_def check_cancelled_def)
qed

lemma recvfrom_into_checks_first: "checks_first w (recvfrom_into s buf sz w)"
proof (rule checks_firstI)
  show "\<exists>t. trace (snd (recvfrom_into s buf sz w)) = trace w @ CheckCancelled # t"
    unfolding recvfrom_into_def wait_readable_def
    by (auto split: prod.splits sum.splits dest!: trace_check trace_raw_recvfrom_into trace_wait)
  show "recvfrom_into s buf sz w = (Inl Cancelled, log CheckCancelled w)" if "cancelled w"
    using that by (simp add: recvfrom_into_def check_cancelled_def)
qed

lemma sendto_checks_first: "checks_first w (sendto s data addr w)"
proof (rule checks_firstI)
  show "\<exists>t. trace (snd (sendto s data addr w)) = trace w @ CheckCancelled # t"
    unfolding sendto_def wait_writable_def
    by (auto split: prod.splits sum.splits dest!: trace_check trace_raw_sendto trace_wait)
  show "sendto s data addr w = (Inl Cancelled, log CheckCancelled w)" if "cancelled w"
    using that by (simp add: sendto_def check_cancelled_def)
qed

lemma recv_checks_first: "checks_first w (recv s sz pk w)"
proof (rule checks_firstI)
  show "\<exists>t. trace (snd (recv s sz pk w)) = trace w @ CheckCancelled # t"
    by (rule recv_first_event)
  show "recv s sz pk w = (Inl Cancelled, log CheckCancelled w)" if "cancelled w"
    using that by (subst recv.simps) (simp add: check_cancelled_def)
qed

text \<open>One turn of the retry loop of \<open>recv_into\<close>.\<close>

lemma recv_into_turn:
  obtains
    (stop) r w' t where "recv_into s buf pos n w = (r, w')" "trace w' = trace w @ CheckCancelled # t"
  | (again) w3 t where "recv_into s buf pos n w = recv_into s buf pos n w3"
      "trace w3 = trace w @ CheckCancelled # t" "length (rx w3) < length (rx w)"
proof (cases "cancelled w")
  case True
  then have "recv_into s buf pos n w = (Inl Cancelled, log CheckCancelled w)"
    by (subst recv_into.simps) (simp add: check_cancelled_def)
  with stop [of "Inl Cancelled" "log CheckCancelled w" "[]"] show ?thesis
    by (simp add: log_def)
next
  case False
  define w1 where "w1 = log CheckCancelled w"
  have c: "check_cancelled w = (Inr (), w1)"
    using False by (simp add: check_cancelled_def w1_def)
  obtain r2 w2 where r: "raw_recv_into (raw_socket s) buf pos n w1 = (r2, w2)"
    by (cases "raw_recv_into (raw_socket s) buf pos n w1")
  have t2: "trace w2 = trace w @ [CheckCancelled, Raw (raw_socket s) RRecvInto]"
    using trace_raw_recv_into [OF r] by (simp add: w1_def log_def)
  consider (ret) "\<forall>e. r2 = Inl e \<longrightarrow> e \<noteq> BlockingIOError \<and> e \<noteq> SSLWantReadError \<and> e \<noteq> SSLWantWriteError"
    | (retry) e where "r2 = Inl e" "e = BlockingIOError \<or> e = SSLWantReadError \<or> e = SSLWantWriteError"
    by blast
  then show ?thesis
  proof cases
    case ret
    then have "recv_into s buf pos n w = (r2, w2)"
      using c r by (subst recv_into.simps) (auto split: sum.splits)
    with stop [of r2 w2] t2 show ?thesis by simp
  next
    case retry
    define ev where "ev = (if e = SSLWantWriteError then WaitWritable else WaitReadable)"
    obtain r3 w3 where h: "wait_hook ev w2 = (r3, w3)" by (cases "wait_hook ev w2")
    have t3: "trace w3 = trace w @ [CheckCancelled, Raw (raw_socket s) RRecvInto, ev]"
      using trace_wait [OF h] t2 by simp
    have step: "recv_into s buf pos n w =
                (case r3 of Inl e' \<Rightarrow> (Inl e', w3) | Inr _ \<Rightarrow> recv_into s buf pos n w3)"
      using c r retry h
      by (subst recv_into.simps)
         (auto simp: wait_readable_def wait_writable_def ev_def split: sum.splits)
    show ?thesis
    proof (cases r3)
      case (Inl e')
      with step stop [of "Inl e'" w3] t3 show ?thesis by simp
    next
      case (Inr u)
      have "length (rx w3) < length (rx w)"
        using raw_recv_into_retry [OF r [unfolded retry(1)]] retry(2) rx_wait_hook [OF h]
        by (auto simp: w1_def)
      with Inr step again [of w3] t3 show ?thesis by simp
    qed
  qed
qed

lemma recv_into_checks_first: "checks_first w (recv_into s buf pos n w)"
proof (rule checks_firstI)
  show "\<exists>t. trace (snd (recv_into s buf pos n w)) = trace w @ CheckCancelled # t"
  proof (induction "length (rx w)" arbitrary: w rule: less_induct)
    case less
    show ?case
    proof (cases rule: recv_into_turn [of s buf pos n w])
      case (stop r w' t)
      then show ?thesis by simp
    next
      case (again w3 t)
      from less [OF again(3)] obtain t' where
        "trace (snd (recv_into s buf pos n w3)) = trace w3 @ CheckCancelled # t'"
        by blast
      with again show ?thesis by simp
    qed
  qed
  show "recv_into s buf pos n w = (Inl Cancelled, log CheckCancelled w)" if "cancelled w"
    using that by (subst recv_into.simps) (simp add: check_cancelled_def)
qed


text \<open>One turn of the retry loop of \<open>send\<close>.\<close>

lemma send_turn:
  obtains
    (stop) r w' t where "send s data w = (r, w')" "trace w' = trace w @ CheckCancelled # t"
      "set t \<subseteq> {Raw (raw_socket s) RSend, WaitReadable, WaitWritable}"
  | (again) w3 t where "send s data w = send s data w3"
      "trace w3 = trace w @ CheckCancelled # t" "length (tx w3) < length (tx w)"
      "set t \<subseteq> {Raw (raw_socket s) RSend, WaitReadable, WaitWritable}"
proof (cases "cancelled w")
  case True
  then have "send s data w = (Inl Cancelled, log CheckCancelled w)"
    by (subst send.simps) (simp add: check_cancelled_def)
  with stop [of "Inl Cancelled" "log CheckCancelled w" "[]"] show ?thesis
    by (simp add: log_def)
next
  case False
  define w1 where "w1 = log CheckCancelled w"
  have c: "check_cancelled w = (Inr (), w1)"
    using False by (simp add: check_cancelled_def w1_def)
  obtain r2 w2 where r: "raw_send (raw_socket s) data w1 = (r2, w2)"
    by (cases "raw_send (raw_socket s) data w1")
  have t2: "trace w2 = trace w @ [CheckCancelled, Raw (raw_socket s) RSend]"
    using trace_raw_send [OF r] by (simp add: w1_def log_def)
  consider (ret) "\<forall>e. r2 = Inl e \<longrightarrow> e \<noteq> BlockingIOError \<and> e \<noteq> SSLWantReadError \<and> e \<noteq> SSLWantWriteError"
    | (retry) e where "r2 = Inl e" "e = BlockingIOError \<or> e = SSLWantReadError \<or> e = SSLWantWriteError"
    by blast
  then show ?thesis
  proof cases
    case ret
    then have "send s data w = (r2, w2)"
      using c r by (subst send.simps) (auto split: sum.splits)
    with stop [of r2 w2 "[Raw (raw_socket s) RSend]"] t2 show ?thesis by simp
  next
    case retry
    define ev where "ev = (if e = SSLWantReadError then WaitReadable else WaitWritable)"
    obtain r3 w3 where h: "wait_hook ev w2 = (r3, w3)" by (cases "wait_hook ev w2")
    have t3: "trace w3 = trace w @ CheckCancelled # [Raw (raw_socket s) RSend, ev]"
      using trace_wait [OF h] t2 by simp
    have evs: "set [Raw (raw_socket s) RSend, ev] \<subseteq> {Raw (raw_socket s) RSend, WaitReadable, WaitWritable}"
      by (simp add: ev_def)
    have step: "send s data w = (case r3 of Inl e' \<Rightarrow> (Inl e', w3) | Inr _ \<Rightarrow> send s data w3)"
      using c r retry h
      by (subst send.simps)
         (auto simp: wait_readable_def wait_writable_def ev_def split: sum.splits)
    show ?thesis
    proof (cases r3)
      case (Inl e')
      with step stop [of "Inl e'" w3, OF _ t3 evs] show ?thesis by simp
    next
      case (Inr u)
      have "length (tx w3) < length (tx w)"
        using raw_send_pops [OF r] retry tx_wait_hook [OF h]
        by (auto simp: w1_def)
      with Inr step again [of w3, OF _ t3 _ evs] show ?thesis by simp
    qed
  qed
qed

lemma send_trace:
  "\<exists>t. trace (snd (send s data w)) = trace w @ CheckCancelled # t \<and>
       set t \<subseteq> {CheckCancelled, Raw (raw_socket s) RSend, WaitReadable, WaitWritable}"
proof (induction "length (tx w)" arbitrary: w rule: less_induct)
  case less
  show ?case
  proof (cases rule: send_turn [of s data w])
    case (stop r w' t)
    then show ?thesis by auto
  next
    case (again w3 t)
    from less [OF again(3)] obtain t' where
      "trace (snd (send s data w3)) = trace w3 @ CheckCancelled # t'"
      "set t' \<subseteq> {CheckCancelled, Raw (raw_socket s) RSend, WaitReadable, WaitWritable}"
      by blast
    with again have "trace (snd (send s data w)) = trace w @ CheckCancelled # (t @ CheckCancelled # t')"
      "set (t @ CheckCancelled # t') \<subseteq> {CheckCancelled, Raw (raw_socket s) RSend, WaitReadable, WaitWritable}"
      by auto
    then show ?thesis by blast
  qed
qed

lemma send_checks_first: "checks_first w (send s data w)"
proof (rule checks_firstI)
  show "\<exists>t. trace (snd (send s data w)) = trace w @ CheckCancelled # t"
    using send_trace [of s data w] by blast
  show "send s data w = (Inl Cancelled, log CheckCancelled w)" if "cancelled w"
    using that by (subst send.simps) (simp add: check_cancelled_def)
qed

text \<open>One turn of the loop of \<open>sendall\<close>, entered with bytes left to send.\<close>

lemma sendall_loop_turn:
  obtains
    (over) "n \<le> 0" "sendall_loop s data n w = (Inr (), w)"
  | (stop) r w' t where "0 < n" "sendall_loop s data n w = (r, w')" "trace w' = trace w @ CheckCancelled # t"
  | (again) n' w3 t where "0 < n" "sendall_loop s data n w = sendall_loop s data n' w3"
      "trace w3 = trace w @ CheckCancelled # t" "length (tx w3) < length (tx w)"
proof (cases "0 < n")
  case False
  then have "sendall_loop s data n w = (Inr (), w)"
    by (subst sendall_loop.simps) simp
  with False over show ?thesis by simp
next
  case assms: True
  show ?thesis
  proof (cases "cancelled w")
  case True
  then have "sendall_loop s data n w = (Inl Cancelled, log CheckCancelled w)"
    using assms by (subst sendall_loop.simps) (simp add: check_cancelled_def)
  with assms stop [of "Inl Cancelled" "log CheckCancelled w" "[]"] show ?thesis
    by (simp add: log_def)
next
  case False
  define w1 where "w1 = log CheckCancelled w"
  have c: "check_cancelled w = (Inr (), w1)"
    using False by (simp add: check_cancelled_def w1_def)
  obtain r2 w2 where r: "raw_send (raw_socket s) data w1 = (r2, w2)"
    by (cases "raw_send (raw_socket s) data w1")
  have t2: "trace w2 = trace w @ [CheckCancelled, Raw (raw_socket s) RSend]"
    using trace_raw_send [OF r] by (simp add: w1_def log_def)
  consider (sent) k where "r2 = Inr k"
    | (fail) e where "r2 = Inl e" "e \<noteq> BlockingIOError" "e \<noteq> SSLWantReadError" "e \<noteq> SSLWantWriteError"
    | (retry) e where "r2 = Inl e" "e = BlockingIOError \<or> e = SSLWantReadError \<or> e = SSLWantWriteError"
    by (cases r2) blast+
  then show ?thesis
  proof cases
    case sent
    then have "sendall_loop s data n w = sendall_loop s data (n - int k) w2"
      using c r assms by (subst sendall_loop.simps) simp
    moreover have "length (tx w2) < length (tx w)"
      using raw_send_pops [OF r] sent by (simp add: w1_def)
    ultimately show ?thesis using assms again [of "n - int k" w2] t2 by simp
  next
    case fail
    then have "sendall_loop s data n w = (Inl e, w2)"
      using c r assms by (subst sendall_loop.simps) simp
    with assms stop [of "Inl e" w2] t2 show ?thesis by simp
  next
    case retry
    define ev where "ev = (if e = SSLWantReadError then WaitReadable else WaitWritable)"
    obtain r3 w3 where h: "wait_hook ev w2 = (r3, w3)" by (cases "wait_hook ev w2")
    have t3: "trace w3 = trace w @ CheckCancelled # [Raw (raw_socket s) RSend, ev]"
      using trace_wait [OF h] t2 by simp
    have step: "sendall_loop s data n w =
                (case r3 of Inl e' \<Rightarrow> (Inl e', w3) | Inr _ \<Rightarrow> sendall_loop s data n w3)"
      using c r retry h assms
      by (subst sendall_loop.simps)
         (auto simp: wait_readable_def wait_writable_def ev_def split: sum.splits)
    show ?thesis
    proof (cases r3)
      case (Inl e')
      with step stop [of "Inl e'" w3, OF assms _ t3] show ?thesis by simp
    next
      case (Inr u)
      have "length (tx w3) < length (tx w)"
        using raw_send_pops [OF r] retry tx_wait_hook [OF h]
        by (auto simp: w1_def)
      with Inr step again [of n w3, OF assms _ t3] show ?thesis by simp
    qed
  qed
  qed
qed

lemma sendall_loop_grows: "\<exists>t. trace (snd (sendall_loop s data n w)) = trace w @ t"
proof (induction "length (tx w)" arbitrary: w n rule: less_induct)
  case less
  show ?case
  proof (cases rule: sendall_loop_turn [of n s data w])
    case over
    then show ?thesis by simp
  next
    case (stop r w' t)
    then show ?thesis by simp
  next
    case (again n' w3 t)
    from less [OF again(4), of n'] obtain t' where
      "trace (snd (sendall_loop s data n' w3)) = trace w3 @ t'" by blast
    with again show ?thesis by simp
  qed
qed

lemma sendall_checks_first: "data \<noteq> [] \<Longrightarrow> checks_first w (sendall s data w)"
proof (rule checks_firstI)
  assume d: "data \<noteq> []"
  then have pos: "0 < int (length data)" by simp
  show "\<exists>t. trace (snd (sendall s data w)) = trace w @ CheckCancelled # t"
    unfolding sendall_def
  proof (cases rule: sendall_loop_turn [of "int (length data)" s data w])
    case over
    with pos show "\<exists>t. trace (snd (sendall_loop s data (int (length data)) w)) = trace w @ CheckCancelled # t"
      by simp
  next
    case (stop r w' t)
    then show "\<exists>t. trace (snd (sendall_loop s data (int (length data)) w)) = trace w @ CheckCancelled # t"
      by simp
  next
    case (again n' w3 t)
    from sendall_loop_grows [of s data n' w3] obtain t' where
      "trace (snd (sendall_loop s data n' w3)) = trace w3 @ t'" by blast
    with again show "\<exists>t. trace (snd (sendall_loop s data (int (length data)) w)) = trace w @ CheckCancelled # t"
      by simp
  qed
  show "sendall s data w = (Inl Cancelled, log CheckCancelled w)" if "cancelled w"
    using that pos unfolding sendall_def
    by (subst sendall_loop.simps) (simp add: check_cancelled_def)
qed

lemma sendall_empty: "sendall s [] w = (Inr (), w)"
  unfolding sendall_def by (subst sendall_loop.simps) simp

section \<open>Properties of receive\_exactly\<close>

definition stream0 :: socketstream where
  "stream0 = \<lparr> socket = \<lparr> raw_socket = Plain 3 \<rparr>, ssl_context = None, server_hostname = None \<rparr>"

text \<open>
  Claim C5. For every \<open>n \<ge> 0\<close>, \<^verbatim>\<open>receive_exactly(n)\<close> on a stream that holds at
  least \<open>n\<close> bytes, however the raw socket fragments their delivery, returns exactly
  the first \<open>n\<close> bytes; if the stream ends (a \<^verbatim>\<open>recv_into\<close> returns zero bytes) before
  \<open>n\<close> bytes have arrived, the call fails with \<open>IncompleteRead\<close> carrying exactly the
  bytes accumulated so far.
\<close>

theorem receive_exactly_correct:
  assumes "quiet w" and "0 \<le> n"
  shows "(nat n \<le> length (rx_bytes (rx w)) \<longrightarrow>
            fst (receive_exactly st n w) = Inr (take (nat n) (rx_bytes (rx w)))) \<and>
         (length (rx_bytes (rx w)) < nat n \<longrightarrow>
            fst (receive_exactly st n w) = Inl (IncompleteRead (rx_bytes (rx w))))"
proof -
  have "fst (receive_exactly st n w) =
          (if nat n \<le> length (rx_bytes (rx w))
           then Inr (take 0 (replicate (nat n) (CHR 0x00)) @ take (nat n) (rx_bytes (rx w)))
           else Inl (IncompleteRead (take 0 (replicate (nat n) (CHR 0x00)) @ rx_bytes (rx w))))"
    unfolding receive_exactly_def using assms
    by (simp add: receive_exactly_loop_quiet)
  then show ?thesis by simp
qed

theorem receive_exactly_correct_witness:
  "quiet (world0\<lparr>rx := [Chunk ''ab'', RxRaise BlockingIOError, Chunk ''cde'', Chunk ''fg'']\<rparr>) \<and>
   fst (receive_exactly stream0 5
          (world0\<lparr>rx := [Chunk ''ab'', RxRaise BlockingIOError, Chunk ''cde'', Chunk ''fg'']\<rparr>))
     = Inr ''abcde'' \<and>
   quiet (world0\<lparr>rx := [Chunk ''ab'']\<rparr>) \<and>
   fst (receive_exactly stream0 5 (world0\<lparr>rx := [Chunk ''ab'']\<rparr>)) = Inl (IncompleteRead ''ab'')"
proof -
  let ?w = "world0\<lparr>rx := [Chunk ''ab'', RxRaise BlockingIOError, Chunk ''cde'', Chunk ''fg'']\<rparr>"
  let ?v = "world0\<lparr>rx := [Chunk ''ab'']\<rparr>"
  have q: "quiet ?w" "quiet ?v"
    by (simp_all add: quiet_def world0_def transient_def)
  have n: "(0::int) \<le> 5" by simp
  show ?thesis
    using q receive_exactly_correct [OF q(1) n, of stream0]
      receive_exactly_correct [OF q(2) n, of stream0]
    by simp
qed

section \<open>Where the code departs from its specification\<close>

definition sock0 :: basesocket where
  "sock0 = \<lparr> raw_socket = Plain 3 \<rparr>"

text \<open>
  Claim C1 says that \<^verbatim>\<open>sendall(data)\<close> makes the peer observe exactly the bytes of
  \<open>data\<close>, once and in order, whatever short counts the single \<^verbatim>\<open>send\<close> calls accept.
  The loop counts the bytes still to send but passes the whole of \<open>data\<close> to every
  \<^verbatim>\<open>send\<close>: after a short write it sends the start of the payload again. With the
  payload \<^verbatim>\<open>b"abc"\<close> and a socket that takes two bytes and then one, the call returns
  normally and the peer has observed \<^verbatim>\<open>b"aba"\<close>.
\<close>

theorem sendall_short_write_resends_prefix:
  "fst (sendall sock0 ''abc'' (world0\<lparr>tx := [Room 2, Room 1]\<rparr>)) = Inr () \<and>
   wire (snd (sendall sock0 ''abc'' (world0\<lparr>tx := [Room 2, Room 1]\<rparr>))) = ''aba''"
  by code_simp

text \<open>
  Claim C2 says that \<^verbatim>\<open>receive_until(d, max)\<close> on a stream holding \<open>p + d + rest\<close>
  returns \<open>p\<close> and consumes exactly \<open>p + d\<close>, however the peeks fragment the delivery.
  When the delimiter is found, the code reads \<^verbatim>\<open>index + len(delimiter)\<close> bytes, where
  \<open>index\<close> counts from the start of the accumulated buffer, although the bytes of
  earlier peeks have been read already. With \<open>d\<close> = \<^verbatim>\<open>b"X"\<close>, \<open>p\<close> = \<^verbatim>\<open>b"ab"\<close>,
  \<open>rest\<close> = \<^verbatim>\<open>b"cd"\<close>, delivered as \<^verbatim>\<open>b"a"\<close> and then \<^verbatim>\<open>b"bXcd"\<close>, the call returns
  \<^verbatim>\<open>b"ab"\<close> and leaves only \<^verbatim>\<open>b"d"\<close> in the stream.
\<close>

theorem receive_until_consumes_into_rest:
  "fst (receive_until stream0 ''X'' 10 (world0\<lparr>rx := [Chunk ''a'', Chunk ''bXcd'']\<rparr>)) = Inr ''ab'' \<and>
   rx (snd (receive_until stream0 ''X'' 10 (world0\<lparr>rx := [Chunk ''a'', Chunk ''bXcd'']\<rparr>))) = [Chunk ''d'']"
  by code_simp

text \<open>
  Claim C3 says that after every failure of \<^verbatim>\<open>start_tls\<close>, also one raised while waiting
  for readiness, the socket has its plain raw socket again. A failure raised by
  \<^verbatim>\<open>_wait_readable\<close> or \<^verbatim>\<open>_wait_writable\<close> leaves the \<^verbatim>\<open>try\<close> statement from inside
  an \<^verbatim>\<open>except\<close> clause, past the clause that restores the plain socket. When the
  handshake wants to read and the wait is cancelled, the failure propagates and the
  socket still holds the TLS socket.
\<close>

theorem start_tls_wait_failure_keeps_tls_socket:
  "start_tls sock0 7 None
     (world0\<lparr>calls := [None, Some SSLWantReadError], waits := [Some Cancelled]\<rparr>)
   = (Inl Cancelled, \<lparr> raw_socket = TLS (Plain 3) \<rparr>,
      world0\<lparr>detached := [Plain 3],
             trace := [Raw (Plain 3) (RWrapSocket 7 True),
                       Raw (TLS (Plain 3)) RDoHandshake, WaitReadable]\<rparr>)"
  by code_simp

text \<open>
  Claim C6 says that the search offset of \<^verbatim>\<open>receive_until\<close> is clamped, so that a
  delimiter that straddles two peeks is always found. The code adds
  \<^verbatim>\<open>len(data) - delimiter_size + 1\<close> to the offset and does not clamp it: after a peek
  shorter than \<^verbatim>\<open>delimiter_size - 1\<close> the offset is negative, and \<^verbatim>\<open>bytes.find\<close> counts
  a negative start from the end of the buffer. With the delimiter \<^verbatim>\<open>b"abc"\<close> delivered
  as \<^verbatim>\<open>b"a"\<close> and then \<^verbatim>\<open>b"bcX"\<close>, the search of \<^verbatim>\<open>b"abcX"\<close> starts at index 3, the
  delimiter is not found, and at the end of the stream the call fails with
  \<open>IncompleteRead\<close>.
\<close>

theorem receive_until_misses_straddling_delimiter:
  "bytes_find ''abcX'' ''abc'' (- 1) = - 1 \<and>
   fst (receive_until stream0 ''abc'' 100 (world0\<lparr>rx := [Chunk ''a'', Chunk ''bcX'']\<rparr>))
     = Inl (IncompleteRead ''abcX'')"
  by code_simp

section \<open>Properties of the cancellation checks\<close>

text \<open>
  Claim C4 says that every operation of \<open>BaseSocket\<close>, \<^verbatim>\<open>start_tls\<close> among them, checks
  for cancellation before it first touches the socket. \<^verbatim>\<open>start_tls\<close> makes no such
  check: in a cancelled task it wraps the socket, runs the handshake and returns.
\<close>

theorem start_tls_ignores_cancellation:
  "start_tls sock0 7 None (world0\<lparr>cancelled := True\<rparr>)
   = (Inr (), \<lparr> raw_socket = TLS (Plain 3) \<rparr>,
      world0\<lparr>cancelled := True, detached := [Plain 3],
             trace := [Raw (Plain 3) (RWrapSocket 7 True), Raw (TLS (Plain 3)) RDoHandshake]\<rparr>)"
  by code_simp

definition cancelled_world :: world where
  "cancelled_world = world0\<lparr>cancelled := True, rx := [Chunk ''xy''], tx := [Room 8],
                            conns := [Inr (9, ''peer'')]\<rparr>"

text \<open>
  Claim C4, amended. Each of \<^verbatim>\<open>accept\<close>, \<^verbatim>\<open>bind\<close>, \<^verbatim>\<open>connect\<close>, \<^verbatim>\<open>recv\<close>,
  \<^verbatim>\<open>recv_into\<close>, \<^verbatim>\<open>recvfrom\<close>, \<^verbatim>\<open>recvfrom_into\<close>, \<^verbatim>\<open>send\<close>, \<^verbatim>\<open>sendto\<close>, and \<^verbatim>\<open>sendall\<close>
  with a non-empty payload, on every input, checks for cancellation before its
  first interaction with the socket, and in a cancelled task fails with \<open>Cancelled\<close>
  without touching the socket. \<^verbatim>\<open>sendall\<close> with an empty payload returns at once,
  with no check and no interaction.
\<close>

theorem operations_check_cancellation_first:
  "checks_first w (accept s w) \<and>
   checks_first w (bind s a w) \<and>
   checks_first w (connect ec s a w) \<and>
   checks_first w (recv s sz pk w) \<and>
   checks_first w (recv_into s buf pos n w) \<and>
   checks_first w (recvfrom s sz w) \<and>
   checks_first w (recvfrom_into s buf sz w) \<and>
   checks_first w (send s data w) \<and>
   checks_first w (sendto s data addr w) \<and>
   (data \<noteq> [] \<longrightarrow> checks_first w (sendall s data w)) \<and>
   sendall s [] w = (Inr (), w)"
  by (simp add: accept_checks_first bind_checks_first connect_checks_first recv_checks_first
      recv_into_checks_first recvfrom_checks_first recvfrom_into_checks_first send_checks_first
      sendto_checks_first sendall_checks_first sendall_empty)

theorem operations_check_cancellation_first_witness:
  "cancelled cancelled_world \<and> ''abc'' \<noteq> [] \<and>
   accept sock0 cancelled_world = (Inl Cancelled, log CheckCancelled cancelled_world) \<and>
   recv sock0 10 False cancelled_world = (Inl Cancelled, log CheckCancelled cancelled_world) \<and>
   send sock0 ''abc'' cancelled_world = (Inl Cancelled, log CheckCancelled cancelled_world) \<and>
   sendall sock0 ''abc'' cancelled_world = (Inl Cancelled, log CheckCancelled cancelled_world) \<and>
   rx (log CheckCancelled cancelled_world) = [Chunk ''xy''] \<and>
   trace (log CheckCancelled cancelled_world) = [CheckCancelled]"
proof -
  have c: "cancelled cancelled_world" by (simp add: cancelled_world_def world0_def)
  have d: "''abc'' \<noteq> []" by simp
  show ?thesis
    using c d operations_check_cancellation_first
      [of cancelled_world sock0 "OtherAddress []" "\<lambda>_. None" 10 False "[]" 0 0 "''abc''" "([], 0)"]
    by (simp add: checks_first_def cancelled_world_def world0_def log_def)
qed

section \<open>Properties of DatagramSocket.send\<close>

lemma set_rawcalls: "set (rawcalls es) = {c. \<exists>h. Raw h c \<in> set es}"
  by (induction es rule: rawcalls.induct) auto

lemma send_rawcalls:
  "set (rawcalls (new_events w (snd (send s data w)))) \<subseteq> {RSend}"
  using send_trace [of s data w] by (auto simp: new_events_def set_rawcalls)

lemma sendto_rawcalls:
  "set (rawcalls (new_events w (snd (sendto s data addr w)))) \<subseteq> {RSendTo}"
  unfolding sendto_def wait_writable_def new_events_def
  by (auto simp: set_rawcalls split: prod.splits sum.splits
      dest!: trace_check trace_raw_sendto trace_wait)

text \<open>
  Claim C10. When \<^verbatim>\<open>DatagramSocket.send\<close> is given only one of \<open>address\<close> and \<open>port\<close>
  (or neither), it does what \<^verbatim>\<open>send\<close> of the socket does and makes no \<^verbatim>\<open>sendto\<close> call
  on the raw socket: the partial destination is ignored. A \<^verbatim>\<open>sendto\<close> call is made
  only when both are given, and then the call is \<^verbatim>\<open>sendto\<close> of the socket and no
  \<^verbatim>\<open>send\<close> call is made.
\<close>

theorem datagram_send_dispatch:
  "(address = None \<or> port = None \<longrightarrow>
      datagram_send dg data address port w =
        (case send (dgram_socket dg) data w of (r, w') \<Rightarrow> (map_sum id (\<lambda>_. ()) r, w')) \<and>
      RSendTo \<notin> set (rawcalls (new_events w (snd (datagram_send dg data address port w))))) \<and>
   (RSendTo \<in> set (rawcalls (new_events w (snd (datagram_send dg data address port w)))) \<longrightarrow>
      address \<noteq> None \<and> port \<noteq> None) \<and>
   (address \<noteq> None \<and> port \<noteq> None \<longrightarrow>
      datagram_send dg data address port w =
        (case sendto (dgram_socket dg) data (the address, the port) w of
           (r, w') \<Rightarrow> (map_sum id (\<lambda>_. ()) r, w')) \<and>
      RSend \<notin> set (rawcalls (new_events w (snd (datagram_send dg data address port w)))))"
proof -
  have a: "datagram_send dg data address port w =
        (case send (dgram_socket dg) data w of (r, w') \<Rightarrow> (map_sum id (\<lambda>_. ()) r, w'))"
    if "address = None \<or> port = None"
    using that by (auto simp: datagram_send_def split: prod.splits sum.splits)
  have b: "datagram_send dg data address port w =
        (case sendto (dgram_socket dg) data (the address, the port) w of
           (r, w') \<Rightarrow> (map_sum id (\<lambda>_. ()) r, w'))"
    if "address \<noteq> None \<and> port \<noteq> None"
    using that by (auto simp: datagram_send_def split: prod.splits sum.splits)
  have a': "snd (datagram_send dg data address port w) = snd (send (dgram_socket dg) data w)"
    if "address = None \<or> port = None"
    using a [OF that] by (simp add: split_beta)
  have b': "snd (datagram_send dg data address port w) =
            snd (sendto (dgram_socket dg) data (the address, the port) w)"
    if "address \<noteq> None \<and> port \<noteq> None"
    using b [OF that] by (simp add: split_beta)
  have na: "RSendTo \<notin> set (rawcalls (new_events w (snd (datagram_send dg data address port w))))"
    if "address = None \<or> port = None"
    using send_rawcalls [of w "dgram_socket dg" data] a' [OF that] by auto
  have nb: "RSend \<notin> set (rawcalls (new_events w (snd (datagram_send dg data address port w))))"
    if "address \<noteq> None \<and> port \<noteq> None"
    using sendto_rawcalls [of w "dgram_socket dg" data] b' [OF that] by auto
  show ?thesis
  proof (intro conjI impI)
    assume m: "RSendTo \<in> set (rawcalls (new_events w (snd (datagram_send dg data address port w))))"
    have "\<not> (address = None \<or> port = None)"
    proof
      assume "address = None \<or> port = None"
      from na [OF this] m show False by contradiction
    qed
    then show "address \<noteq> None" "port \<noteq> None" by simp_all
  qed (use a b na nb in blast)+
qed

theorem datagram_send_dispatch_witness:
  "datagram_send \<lparr> dgram_socket = sock0 \<rparr> ''ping'' (Some ''192.0.2.1'') None (world0\<lparr>tx := [Room 9]\<rparr>)
     = (Inr (), world0\<lparr>wire := ''ping'', trace := [CheckCancelled, Raw (Plain 3) RSend]\<rparr>) \<and>
   datagram_send \<lparr> dgram_socket = sock0 \<rparr> ''ping'' None (Some 53) (world0\<lparr>tx := [Room 9]\<rparr>)
     = (Inr (), world0\<lparr>wire := ''ping'', trace := [CheckCancelled, Raw (Plain 3) RSend]\<rparr>) \<and>
   rawcalls (new_events (world0\<lparr>tx := [Room 9]\<rparr>)
      (snd (datagram_send \<lparr> dgram_socket = sock0 \<rparr> ''ping'' (Some ''192.0.2.1'') (Some 53)
              (world0\<lparr>tx := [Room 9]\<rparr>)))) = [RSendTo]"
proof -
  let ?w = "world0\<lparr>tx := [Room 9]\<rparr>"
  let ?dg = "\<lparr> dgram_socket = sock0 \<rparr>"
  have tr: "trace ?w = []" by (simp add: world0_def)
  have s: "send sock0 ''ping'' ?w
           = (Inr 4, world0\<lparr>wire := ''ping'', trace := [CheckCancelled, Raw (Plain 3) RSend]\<rparr>)"
    by code_simp
  have t: "sendto sock0 ''ping'' (''192.0.2.1'', 53) ?w
           = (Inr 4, world0\<lparr>wire := ''ping'', trace := [CheckCancelled, Raw (Plain 3) RSendTo]\<rparr>)"
    by code_simp
  show ?thesis
    using datagram_send_dispatch [of "Some ''192.0.2.1''" None ?dg "''ping''" ?w]
      datagram_send_dispatch [of None "Some 53" ?dg "''ping''" ?w]
      datagram_send_dispatch [of "Some ''192.0.2.1''" "Some 53" ?dg "''ping''" ?w]
    by (simp add: s t new_events_def tr)
qed

section \<open>Properties of receive\_chunks\<close>

text \<open>
  \<open>receive_some_calls st max_bytes k\<close> makes \<open>k\<close> calls of \<^verbatim>\<open>receive_some\<close> in a row
  and lists their outcomes; \<open>delivered\<close> is the bytes those calls returned.
  \<open>last_read\<close> is the outcome of the read at which the generator ends: an empty
  result when it returns, the exception when it raises.
\<close>

fun receive_some_calls ::
  "socketstream \<Rightarrow> int \<Rightarrow> nat \<Rightarrow> world \<Rightarrow> (exc + bytes) list \<times> world" where
  "receive_some_calls st max_bytes 0 w = ([], w)"
| "receive_some_calls st max_bytes (Suc k) w =
     (case receive_some st max_bytes w of
        (r, w1) \<Rightarrow> (case receive_some_calls st max_bytes k w1 of (rs, w2) \<Rightarrow> (r # rs, w2)))"

definition last_read :: "exc option \<Rightarrow> exc + bytes" where
  "last_read fin = (case fin of None \<Rightarrow> Inr [] | Some e \<Rightarrow> Inl e)"

fun delivered :: "(exc + bytes) list \<Rightarrow> bytes" where
  "delivered [] = []"
| "delivered (Inr data # rs) = data @ delivered rs"
| "delivered (Inl e # rs) = delivered rs"

lemma receive_chunks_reads:
  "receive_chunks st m w = (ys, fin, w') \<Longrightarrow>
   [] \<notin> set ys \<and>
   receive_some_calls st m (Suc (length ys)) w = (map Inr ys @ [last_read fin], w')"
proof (induction st m w arbitrary: ys fin w' rule: receive_chunks.induct)
  case (1 st m w)
  obtain r w1 where rs: "receive_some st m w = (r, w1)" by (cases "receive_some st m w")
  show ?case
  proof (cases r)
    case (Inl e)
    with rs "1.prems" have "ys = []" "fin = Some e" "w' = w1"
      by (subst (asm) receive_chunks.simps, simp)+
    with rs Inl show ?thesis by (simp add: last_read_def)
  next
    case (Inr data)
    show ?thesis
    proof (cases "data = []")
      case True
      with rs Inr "1.prems" have "ys = []" "fin = None" "w' = w1"
        by (subst (asm) receive_chunks.simps, simp)+
      with rs Inr True show ?thesis by (simp add: last_read_def)
    next
      case False
      obtain ys1 fin1 w2 where rc: "receive_chunks st m w1 = (ys1, fin1, w2)"
        by (cases "receive_chunks st m w1") auto
      with rs Inr False "1.prems" have eq: "ys = data # ys1" "fin = fin1" "w' = w2"
        by (subst (asm) receive_chunks.simps, simp)+
      from "1.IH" [OF rs [symmetric] Inr False rc]
      have "[] \<notin> set ys1"
        "receive_some_calls st m (Suc (length ys1)) w1 = (map Inr ys1 @ [last_read fin1], w2)"
        by simp_all
      with eq rs Inr False show ?thesis by simp
    qed
  qed
qed

lemma delivered_chunks: "delivered (map Inr ys @ [last_read fin]) = concat ys"
  by (induction ys) (auto simp: last_read_def split: option.splits)

text \<open>
  Claim C9. For every \<open>max_size\<close>, the chunks that \<^verbatim>\<open>receive_chunks(max_size)\<close> yields are
  non-empty; they are, in order, the results of the successive \<^verbatim>\<open>receive_some\<close> calls
  up to the first call that does not return a non-empty result, and the generator
  ends at that call: without error exactly when the call returned an empty result,
  with the exception of the call otherwise. The concatenation of the chunks is the
  bytes that these calls delivered.
\<close>

theorem receive_chunks_correct:
  "[] \<notin> set (fst (receive_chunks st max_size w)) \<and>
   receive_some_calls st max_size (Suc (length (fst (receive_chunks st max_size w)))) w =
     (map Inr (fst (receive_chunks st max_size w)) @
        [last_read (fst (snd (receive_chunks st max_size w)))],
      snd (snd (receive_chunks st max_size w))) \<and>
   delivered (fst (receive_some_calls st max_size
                     (Suc (length (fst (receive_chunks st max_size w)))) w))
     = concat (fst (receive_chunks st max_size w))"
proof -
  obtain ys fin w' where r: "receive_chunks st max_size w = (ys, fin, w')"
    by (cases "receive_chunks st max_size w") auto
  from receive_chunks_reads [OF r] r show ?thesis
    by (simp add: delivered_chunks)
qed

section \<open>SocketStreamServer.accept and the accepted connection\<close>

definition srv0 :: socketstreamserver where
  "srv0 = \<lparr> listener = sock0, listener_ssl_context = Some 5 \<rparr>"

text \<open>
  Claim C8 says that when the TLS upgrade of an accepted connection fails,
  \<^verbatim>\<open>SocketStreamServer.accept\<close> closes the accepted socket before it propagates the
  failure, so that no accepted connection is leaked. The handler does call
  \<^verbatim>\<open>sock.close()\<close>, but when the handshake itself has failed \<^verbatim>\<open>start_tls\<close> has put the
  plain socket object back, and that object was detached from its descriptor when
  \<^verbatim>\<open>wrap_socket\<close> built the TLS socket: the close releases nothing. With a listener
  configured for TLS, a connection accepted on descriptor 9 and a handshake that
  fails, \<^verbatim>\<open>accept\<close> propagates the failure after closing the detached object, and
  descriptor 9 has not been released.
\<close>

theorem server_accept_handshake_failure_leaks_descriptor:
  "server_accept srv0
     (world0\<lparr>conns := [Inr (9, ''peer'')], calls := [None, Some (OtherError 2)]\<rparr>)
   = (Inl (OtherError 2),
      world0\<lparr>detached := [Plain 9],
             trace := [CheckCancelled, Raw (Plain 3) RAccept, Raw (Plain 9) RSetBlocking,
                       Raw (Plain 9) (RWrapSocket 5 True), Raw (TLS (Plain 9)) RDoHandshake,
                       NotifyClose, Raw (Plain 9) RClose]\<rparr>) \<and>
   9 \<notin> set (released (snd (server_accept srv0
     (world0\<lparr>conns := [Inr (9, ''peer'')], calls := [None, Some (OtherError 2)]\<rparr>))))"
  by code_simp

text \<open>
  When it is a readiness wait that fails, \<^verbatim>\<open>start_tls\<close> leaves the TLS socket in place,
  which owns the descriptor, and the same handler releases it.
\<close>

lemma server_accept_wait_failure_releases_descriptor:
  "server_accept srv0
     (world0\<lparr>conns := [Inr (9, ''peer'')], calls := [None, Some SSLWantReadError],
             waits := [Some Cancelled]\<rparr>)
   = (Inl Cancelled,
      world0\<lparr>detached := [Plain 9], released := [9],
             trace := [CheckCancelled, Raw (Plain 3) RAccept, Raw (Plain 9) RSetBlocking,
                       Raw (Plain 9) (RWrapSocket 5 True), Raw (TLS (Plain 9)) RDoHandshake,
                       WaitReadable, NotifyClose, Raw (TLS (Plain 9)) RClose]\<rparr>)"
  by code_simp

section \<open>Properties of receive\_until\<close>

text \<open>
  What \<^verbatim>\<open>receive_until\<close> can return on a stream that delivers its bytes, \<open>data\<close> being
  the bytes accumulated so far followed by the bytes the stream still holds: a
  prefix of \<open>data\<close> that ends where the delimiter occurs, within the first \<open>max_size\<close>
  bytes; or \<open>DelimiterNotFound\<close> with the first \<open>max_size\<close> bytes, the stream holding
  the rest; or \<open>IncompleteRead\<close> with all of \<open>data\<close>, which is shorter than \<open>max_size\<close>.
\<close>

definition until_outcome :: "bytes \<Rightarrow> int \<Rightarrow> bytes \<Rightarrow> (exc + bytes) \<times> world \<Rightarrow> bool" where
  "until_outcome d max_size data res =
     (case fst res of
        Inr p \<Rightarrow> (\<exists>i. p = take i data \<and> int (i + length d) \<le> max_size \<and>
                       i + length d \<le> length data \<and> take (length d) (drop i data) = d)
      | Inl (DelimiterNotFound b) \<Rightarrow>
          b = take (nat max_size) data \<and> nat max_size \<le> length data \<and>
          rx_bytes (rx (snd res)) = drop (nat max_size) data
      | Inl (IncompleteRead b) \<Rightarrow> b = data \<and> int (length data) < max_size
      | Inl _ \<Rightarrow> False)"

text \<open>
  The bytes of the stream that an outcome of \<^verbatim>\<open>receive_until\<close> accounts for: the frame
  and its delimiter, or the bytes carried by the exception.
\<close>

definition scanned :: "bytes \<Rightarrow> exc + bytes \<Rightarrow> bytes" where
  "scanned d r =
     (case r of
        Inr p \<Rightarrow> p @ d
      | Inl (DelimiterNotFound b) \<Rightarrow> b
      | Inl (IncompleteRead b) \<Rightarrow> b
      | Inl _ \<Rightarrow> [])"

lemma bytes_find_found:
  assumes "0 \<le> bytes_find buf sub start"
  shows "nat (bytes_find buf sub start) + length sub \<le> length buf \<and>
         take (length sub) (drop (nat (bytes_find buf sub start)) buf) = sub"
proof -
  define s where "s = (if start < 0 then nat (max 0 (int (length buf) + start)) else nat start)"
  obtain i where f: "List.find (\<lambda>i. take (length sub) (drop i buf) = sub)
                       [s ..< Suc (length buf) - length sub] = Some i"
    and r: "bytes_find buf sub start = int i"
    using assms unfolding bytes_find_def Let_def s_def [symmetric]
    by (auto split: option.splits)
  from f have "i < Suc (length buf) - length sub" "take (length sub) (drop i buf) = sub"
    by (auto simp: find_Some_iff)
  with r show ?thesis by auto
qed

lemma occurrence_sublist:
  assumes "take (length d) (drop i xs) = d" and "i + length d \<le> n"
  shows "sublist d (take n xs)"
proof -
  have "length d \<le> n - i" using assms(2) by simp
  then have "take (length d) (drop i (take n xs)) = take (length d) (drop i xs)"
    by (simp add: drop_take min_def)
  with assms(1) have "take n xs = take i (take n xs) @ d @ drop (length d) (drop i (take n xs))"
    by (metis append_take_drop_id)
  then show ?thesis unfolding sublist_def by blast
qed

lemma settle_idem [simp]: "settle (settle r) = settle r"
  by (induction r rule: settle.induct) auto

lemma receive_until_loop_quiet:
  "quiet w \<Longrightarrow> int (length buf) \<le> max_size \<Longrightarrow> \<not> is_tls (raw_socket (socket st)) \<Longrightarrow>
   until_outcome d max_size (buf @ rx_bytes (rx w)) (receive_until_loop st d max_size off buf w)"
proof (induction st d max_size off buf w rule: receive_until_loop.induct)
  case (1 st d max_size off buf w)
  let ?data = "buf @ rx_bytes (rx w)"
  show ?case
  proof (cases "int (length buf) < max_size")
    case False
    with "1.prems" have "nat max_size = length buf" by simp
    with False show ?thesis
      by (subst receive_until_loop.simps) (simp add: until_outcome_def)
  next
    case True
    define sz where "sz = max_size - int (length buf)"
    define pk where "pk = take (nat sz) (rx_head (settle (rx w)))"
    have szpos: "0 < sz" using True by (simp add: sz_def)
    from recv_quiet [OF "1.prems"(1), where sz = sz and s = "socket st" and peek = True]
      szpos "1.prems"(3) obtain w1 where
      w1: "recv (socket st) sz True w = (Inr pk, w1)" "quiet w1" "rx w1 = settle (rx w)"
      unfolding pk_def by auto
    show ?thesis
    proof (cases "pk = []")
      case True
      then have "rx_head (settle (rx w)) = []"
        using szpos by (auto simp: pk_def)
      then have "rx_bytes (rx w) = []"
        using "1.prems"(1) rx_head_empty by (simp add: quiet_def)
      with True w1 \<open>int (length buf) < max_size\<close> show ?thesis
        by (subst receive_until_loop.simps) (simp add: until_outcome_def sz_def)
    next
      case False
      define buf1 where "buf1 = buf @ pk"
      define index where "index = bytes_find buf1 d off"
      have pkpre: "pk = take (length pk) (rx_bytes (rx w))"
        unfolding pk_def by (rule take_rx_head_prefix)
      have pklen: "length pk \<le> nat sz" by (simp add: pk_def)
      have pkle: "length pk \<le> length (rx_bytes (rx w))"
        using pkpre by (metis nat_le_linear take_all)
      have b1pre: "buf1 = take (length buf1) ?data"
        using pkpre by (simp add: buf1_def)
      have b1len: "int (length buf1) \<le> max_size"
        using pklen \<open>int (length buf) < max_size\<close> by (simp add: buf1_def sz_def)
      have b1le: "length buf1 \<le> length ?data"
        using pkle by (simp add: buf1_def)
      show ?thesis
      proof (cases "0 \<le> index")
        case True
        from bytes_find_found [of buf1 d off] True
        have fnd: "nat index + length d \<le> length buf1"
          "take (length d) (drop (nat index) buf1) = d"
          by (simp_all add: index_def)
        have "0 \<le> index + int (length d)" using True by simp
        from recv_quiet [OF w1(2) this, where peek = False and s = "socket st"] obtain w2 r2 where
          w2: "recv (socket st) (index + int (length d)) False w1 = (Inr r2, w2)"
          by auto
        have res: "receive_until_loop st d max_size off buf w = (Inr (take (nat index) buf1), w2)"
          using \<open>int (length buf) < max_size\<close> w1 False True w2
          by (subst receive_until_loop.simps)
             (simp add: sz_def [symmetric] buf1_def [symmetric] index_def [symmetric] Let_def)
        have "take (nat index) buf1 = take (nat index) ?data"
          using fnd(1) b1pre by (metis add_leE min.absorb2 take_take min.commute)
        moreover have "take (length d) (drop (nat index) ?data) = d"
        proof -
          have "?data = buf1 @ drop (length buf1) ?data"
            using b1pre by (metis append_take_drop_id)
          then have "take (length d) (drop (nat index) ?data) =
                     take (length d) (drop (nat index) buf1 @ drop (length buf1) ?data)"
            using fnd(1) by (metis add_leE drop_append diff_is_0_eq' drop_0)
          also have "\<dots> = take (length d) (drop (nat index) buf1)"
            using fnd(1) by simp
          finally show ?thesis using fnd(2) by simp
        qed
        moreover have "int (nat index + length d) \<le> max_size"
          using fnd(1) b1len by linarith
        moreover have "nat index + length d \<le> length ?data"
          using fnd(1) b1le by linarith
        ultimately show ?thesis
          unfolding res until_outcome_def by auto
      next
        case nf: False
        have "0 \<le> int (length pk)" by simp
        from recv_quiet [OF w1(2) this, where peek = False and s = "socket st"] obtain w2 r2 where
          w2: "recv (socket st) (int (length pk)) False w1 = (Inr r2, w2)" "quiet w2"
              "rx w2 = rx_after (length pk) (settle (rx w1))"
          by auto
        have hd: "length (take (length pk) (rx_head (settle (rx w)))) = length pk"
          by (simp add: pk_def min_def)
        have rest: "rx_bytes (rx w2) = drop (length pk) (rx_bytes (rx w))"
          using rx_bytes_after [of "length pk" "rx w"] hd by (simp add: w2(3) w1(3))
        have data: "buf1 @ rx_bytes (rx w2) = ?data"
          using pkpre rest by (metis append.assoc append_take_drop_id buf1_def)
        have res: "receive_until_loop st d max_size off buf w =
                   receive_until_loop st d max_size (off + int (length pk) - int (length d) + 1) buf1 w2"
          using \<open>int (length buf) < max_size\<close> w1 False nf w2
          by (subst receive_until_loop.simps)
             (simp add: sz_def [symmetric] buf1_def [symmetric] index_def [symmetric] Let_def)
        have "until_outcome d max_size (buf1 @ rx_bytes (rx w2))
                (receive_until_loop st d max_size (off + int (length pk) - int (length d) + 1) buf1 w2)"
          using "1.IH" [OF \<open>int (length buf) < max_size\<close> w1(1) [unfolded sz_def, symmetric] refl False
              buf1_def index_def nf w2(1) [symmetric] refl w2(2) b1len "1.prems"(3)] .
        then show ?thesis unfolding res data .
      qed
    qed
  qed
qed

lemma take_prefix_mono: "n \<le> m \<Longrightarrow> prefix (take n xs) (take m xs)"
proof -
  assume "n \<le> m"
  then have "take n xs = take n (take m xs)" by (simp add: min_def)
  then show ?thesis by (metis take_is_prefix)
qed

lemma until_outcome_not_found:
  assumes "until_outcome d max_size data res" and "0 \<le> max_size"
    and "nat max_size \<le> length data" and "\<not> sublist d (take (nat max_size) data)"
  shows "fst res = Inl (DelimiterNotFound (take (nat max_size) data)) \<and>
         rx_bytes (rx (snd res)) = drop (nat max_size) data"
proof (cases "fst res")
  case (Inr p)
  with assms(1) obtain i where "int (i + length d) \<le> max_size" "take (length d) (drop i data) = d"
    by (auto simp: until_outcome_def)
  then have "sublist d (take (nat max_size) data)"
    using occurrence_sublist [of d i data "nat max_size"] by simp
  with assms(4) show ?thesis by simp
next
  case (Inl e)
  with assms(1,2,3) show ?thesis
    by (cases e) (auto simp: until_outcome_def)
qed

lemma until_outcome_prefix:
  assumes "until_outcome d larger data res" and "0 \<le> max_size" and "max_size \<le> larger"
    and "nat max_size \<le> length data" and "\<not> sublist d (take (nat max_size) data)"
  shows "prefix (take (nat max_size) data) (scanned d (fst res))"
proof (cases "fst res")
  case (Inr p)
  with assms(1) obtain i where i: "p = take i data" "take (length d) (drop i data) = d"
    by (auto simp: until_outcome_def)
  have "\<not> i + length d \<le> nat max_size"
    using occurrence_sublist [OF i(2)] assms(5) by blast
  then have le: "nat max_size \<le> i + length d" by simp
  have "p @ d = take (i + length d) data"
    using i by (simp add: take_add)
  then show ?thesis
    using Inr take_prefix_mono [OF le, of data] by (simp add: scanned_def)
next
  case (Inl e)
  show ?thesis
  proof (cases e)
    case (DelimiterNotFound b)
    with Inl assms(1) have "b = take (nat larger) data" by (simp add: until_outcome_def)
    moreover have "nat max_size \<le> nat larger" using assms(2,3) by simp
    ultimately show ?thesis
      using Inl DelimiterNotFound take_prefix_mono [of "nat max_size" "nat larger" data]
      by (simp add: scanned_def)
  next
    case (IncompleteRead b)
    with Inl assms(1) have "b = data" by (simp add: until_outcome_def)
    with Inl IncompleteRead show ?thesis by (simp add: scanned_def take_is_prefix)
  qed (use Inl assms(1) in \<open>auto simp: until_outcome_def\<close>)
qed

text \<open>
  On a stream that has been upgraded to TLS the first peek of \<^verbatim>\<open>receive_until\<close> raises
  \<open>ValueError\<close>, which the call propagates: nothing is read and nothing accumulates.
\<close>

lemma receive_until_tls_peek_fails:
  assumes "is_tls (raw_socket (socket st))" and "\<not> cancelled w" and "0 < max_size"
  shows "receive_until st d max_size w =
           (Inl ValueError, log (Raw (raw_socket (socket st)) RRecv) (log CheckCancelled w))"
  using assms unfolding receive_until_def
  by (subst receive_until_loop.simps, subst recv.simps)
     (simp add: check_cancelled_def raw_recv_def Let_def)

text \<open>
  Claim C7. For every delimiter \<open>d\<close> and every \<open>max_size\<close>, on a stream whose socket is
  a plain socket (the only kind on which bytes accumulate at all, see
  \<open>receive_until_tls_peek_fails\<close>): when the stream holds at
  least \<open>max_size\<close> bytes and \<open>d\<close> does not occur in the first \<open>max_size\<close> of them,
  \<^verbatim>\<open>receive_until(d, max_size)\<close> fails with \<open>DelimiterNotFound\<close> carrying exactly those
  \<open>max_size\<close> bytes, and has removed exactly those bytes from the stream. No byte is
  lost: a run with a larger bound on a fresh stream that holds the same data, however
  that stream fragments them, accounts for a byte sequence that begins with the same
  \<open>max_size\<close> bytes.
\<close>

theorem receive_until_delimiter_not_found:
  assumes "\<not> is_tls (raw_socket (socket st))"
    and "quiet w" and "quiet w2"
    and "rx_bytes (rx w) = data" and "rx_bytes (rx w2) = data"
    and "0 \<le> max_size" and "max_size \<le> larger"
    and "nat max_size \<le> length data"
    and "\<not> sublist d (take (nat max_size) data)"
  shows "fst (receive_until st d max_size w) = Inl (DelimiterNotFound (take (nat max_size) data)) \<and>
         rx_bytes (rx (snd (receive_until st d max_size w))) = drop (nat max_size) data \<and>
         prefix (take (nat max_size) data) (scanned d (fst (receive_until st d larger w2)))"
proof -
  have a: "until_outcome d max_size data (receive_until st d max_size w)"
    using receive_until_loop_quiet
      [where w = w and buf = "[]" and max_size = max_size and d = d and st = st and off = 0]
      assms(1,2,4,6)
    by (simp add: receive_until_def)
  have b: "until_outcome d larger data (receive_until st d larger w2)"
    using receive_until_loop_quiet
      [where w = w2 and buf = "[]" and max_size = larger and d = d and st = st and off = 0]
      assms(1,3,5,6,7)
    by (simp add: receive_until_def)
  from until_outcome_not_found [OF a assms(6,8,9)] until_outcome_prefix [OF b assms(6,7,8,9)]
  show ?thesis by simp
qed

theorem receive_until_delimiter_not_found_witness:
  "\<not> is_tls (raw_socket (socket stream0)) \<and>
   quiet (world0\<lparr>rx := [Chunk ''ab'', Chunk ''cdXef'']\<rparr>) \<and>
   rx_bytes (rx (world0\<lparr>rx := [Chunk ''ab'', Chunk ''cdXef'']\<rparr>)) = ''abcdXef'' \<and>
   \<not> sublist ''X'' (take (nat 3) ''abcdXef'') \<and>
   fst (receive_until stream0 ''X'' 3 (world0\<lparr>rx := [Chunk ''ab'', Chunk ''cdXef'']\<rparr>))
     = Inl (DelimiterNotFound ''abc'') \<and>
   rx_bytes (rx (snd (receive_until stream0 ''X'' 3 (world0\<lparr>rx := [Chunk ''ab'', Chunk ''cdXef'']\<rparr>))))
     = ''dXef'' \<and>
   prefix ''abc''
     (scanned ''X'' (fst (receive_until stream0 ''X'' 10 (world0\<lparr>rx := [Chunk ''ab'', Chunk ''cdXef'']\<rparr>))))"
proof -
  let ?w = "world0\<lparr>rx := [Chunk ''ab'', Chunk ''cdXef'']\<rparr>"
  have p: "\<not> is_tls (raw_socket (socket stream0))" by (simp add: stream0_def)
  have q: "quiet ?w" by (simp add: quiet_def world0_def transient_def)
  have d: "rx_bytes (rx ?w) = ''abcdXef''" by simp
  have m: "(0::int) \<le> 3" "(3::int) \<le> 10" "nat 3 \<le> length ''abcdXef''" by simp_all
  have t: "take (nat 3) ''abcdXef'' = ''abc''" "drop (nat 3) ''abcdXef'' = ''dXef''" by code_simp+
  have n: "\<not> sublist ''X'' (take (nat 3) ''abcdXef'')" unfolding t by code_simp
  from receive_until_delimiter_not_found [OF p q q d d m n]
  show ?thesis using p q d n unfolding t by simp
qed

end
